theory Spec2Isabelle
  imports Main "HOL-Library.Word"
begin

unbundle bit_operations_syntax

section \<open>Machine model\<close>

text \<open>
  The bootstrapper is the 32-bit protected-mode stage a Multiboot2 loader enters:
  \<^verbatim>\<open>int\<close>, \<^verbatim>\<open>size_t\<close>, \<^verbatim>\<open>uintptr_t\<close> and every pointer are 32 bits wide, and the fields
  it shares with the 64-bit kernel are \<^verbatim>\<open>uint64_t\<close>. Physical memory is a map from
  addresses to bytes, read and written little-endian as the x86 does.
\<close>

type_synonym u8 = "8 word"
type_synonym u32 = "32 word"
type_synonym u64 = "64 word"
type_synonym ptr = "32 word"
type_synonym memory = "ptr \<Rightarrow> u8"

definition read_u32 :: "memory \<Rightarrow> ptr \<Rightarrow> u32" where
  "read_u32 m a = ucast (m a) OR push_bit 8 (ucast (m (a + 1))) OR
     push_bit 16 (ucast (m (a + 2))) OR push_bit 24 (ucast (m (a + 3)))"

definition read_u64 :: "memory \<Rightarrow> ptr \<Rightarrow> u64" where
  "read_u64 m a = ucast (read_u32 m a) OR push_bit 32 (ucast (read_u32 m (a + 4)))"

definition write_u32 :: "memory \<Rightarrow> ptr \<Rightarrow> u32 \<Rightarrow> memory" where
  "write_u32 m a v = m(a := ucast v, a + 1 := ucast (drop_bit 8 v),
     a + 2 := ucast (drop_bit 16 v), a + 3 := ucast (drop_bit 24 v))"

definition write_u64 :: "memory \<Rightarrow> ptr \<Rightarrow> u64 \<Rightarrow> memory" where
  "write_u64 m a v = write_u32 (write_u32 m a (ucast v)) (a + 4) (ucast (drop_bit 32 v))"

text \<open>\<^verbatim>\<open>memset(s, c, n)\<close>: the \<open>n\<close> bytes from \<open>s\<close> on become \<open>c\<close>.\<close>

definition memset :: "memory \<Rightarrow> ptr \<Rightarrow> u8 \<Rightarrow> u32 \<Rightarrow> memory" where
  "memset m s c n = (\<lambda>a. if a - s < n then c else m a)"

text \<open>
  \<^verbatim>\<open>strcmp(s, lit) == 0\<close> for a string literal \<open>lit\<close> (which holds no NUL): the bytes at
  \<open>s\<close> are those of \<open>lit\<close>, followed by the terminating NUL.
\<close>

fun strcmp_eq :: "memory \<Rightarrow> ptr \<Rightarrow> string \<Rightarrow> bool" where
  "strcmp_eq m s [] = (m s = 0)"
| "strcmp_eq m s (c # cs) = (m s = of_char c \<and> strcmp_eq m (s + 1) cs)"

text \<open>
  Modelled from the spec: the \<^verbatim>\<open>ALIGN\<close> macro, whose header is not among the sources.
  The spec has the next record begin at the current offset plus the record's byte length
  rounded up to a multiple of 8; on the 32-bit \<^verbatim>\<open>size\<close> field that is the usual
  add-and-mask.
\<close>

definition ALIGN :: "u32 \<Rightarrow> u32 \<Rightarrow> u32" where
  "ALIGN v a = (v + (a - 1)) AND NOT (a - 1)"

section \<open>Data\<close>

text \<open>\<^verbatim>\<open>struct ARC_BootMeta\<close> of \<^verbatim>\<open>arctan.h\<close>, the global \<^verbatim>\<open>_boot_meta\<close>.\<close>

record ARC_BootMeta =
  boot_proc :: u32
  boot_info :: u64
  pmm_state :: u64
  highest_address :: u64
  kernel_elf :: u64
  initramfs :: u64
  initramfs_size :: u32
  state :: u64
  hhdm_vaddr :: u64
  arc_mmap :: u64
  arc_mmap_len :: u32
  rsdp :: u64

text \<open>\<^verbatim>\<open>struct ARC_MB2BootInfo\<close>, the static \<^verbatim>\<open>mb2_boot_info\<close>.\<close>

record ARC_MB2BootInfo =
  mbi_phys :: u64
  fb :: u64



text \<open>
  \<^verbatim>\<open>struct multiboot_mmap_entry\<close> of the Multiboot2 header (not among the sources; the
  layout is the protocol's): \<^verbatim>\<open>addr\<close> at offset 0, \<^verbatim>\<open>len\<close> at 8, \<^verbatim>\<open>type\<close> at 16,
  \<^verbatim>\<open>zero\<close> at 20, 24 bytes in all. The array \<^verbatim>\<open>entries\<close> of
  \<^verbatim>\<open>struct multiboot_tag_mmap\<close> starts at offset 16 of the tag, after \<^verbatim>\<open>type\<close>,
  \<^verbatim>\<open>size\<close>, \<^verbatim>\<open>entry_size\<close> and \<^verbatim>\<open>entry_version\<close>; \<^verbatim>\<open>mmap->entries[i]\<close> is indexed with
  the struct's own size.
\<close>

record multiboot_mmap_entry =
  entry_addr :: u64
  entry_len :: u64
  entry_type :: u32
  entry_zero :: u32

definition read_entry :: "memory \<Rightarrow> ptr \<Rightarrow> nat \<Rightarrow> multiboot_mmap_entry" where
  "read_entry m mp i =
     \<lparr>entry_addr = read_u64 m (mp + 16 + 24 * of_nat i),
      entry_len = read_u64 m (mp + 16 + 24 * of_nat i + 8),
      entry_type = read_u32 m (mp + 16 + 24 * of_nat i + 16),
      entry_zero = read_u32 m (mp + 16 + 24 * of_nat i + 20)\<rparr>"

text \<open>
  The calls \<^verbatim>\<open>read_mb2i\<close> makes to code outside this file, in the order made, each with
  its arguments and, where the caller uses it, its result.
\<close>

datatype event =
    SetTerm ptr u32 u32 u32
  | InitPmm ptr ptr
  | ContiguousAlloc u32 ptr
  | MapPage ptr u64 u64 u32 ptr

text \<open>
  The state \<^verbatim>\<open>read_mb2i\<close> works on: memory, the globals \<^verbatim>\<open>_boot_meta\<close>,
  \<^verbatim>\<open>mb2_boot_info\<close> and \<^verbatim>\<open>pml4\<close>, the private state \<open>ext\<close> of the physical allocator
  and the page mapper (their effects on it are theirs alone), and the calls made so far.
\<close>

record 's world =
  mem :: memory
  boot_meta :: ARC_BootMeta
  mb2_boot_info :: ARC_MB2BootInfo
  pml4 :: ptr
  ext :: 's
  calls :: "event list"

text \<open>
  What the file takes from its surroundings: the linker symbol \<^verbatim>\<open>__BOOTSTRAP_END__\<close>, the
  address of the static \<^verbatim>\<open>mb2_boot_info\<close>, and the collaborators \<^verbatim>\<open>init_pmm\<close>,
  \<^verbatim>\<open>Arc_ListContiguousAlloc\<close> (on \<^verbatim>\<open>physical_mem\<close>) and \<^verbatim>\<open>map_page\<close>. A null pointer is 0.
\<close>

record 's env =
  BOOTSTRAP_END :: ptr
  MB2_BOOT_INFO :: ptr
  init_pmm :: "'s \<Rightarrow> ptr \<Rightarrow> ptr \<Rightarrow> 's"
  Arc_ListContiguousAlloc :: "'s \<Rightarrow> u32 \<Rightarrow> ptr \<times> 's"
  map_page :: "'s \<Rightarrow> ptr \<Rightarrow> u64 \<Rightarrow> u64 \<Rightarrow> u32 \<Rightarrow> ptr \<times> 's"

text \<open>
  The locals of \<^verbatim>\<open>read_mb2i\<close>. \<open>visited\<close> is a ghost: the addresses of the records the
  loop body has run on, oldest first.
\<close>

record frame =
  tag :: ptr
  end_ptr :: ptr
  mmap :: ptr
  bootstrap_end :: u64
  entries :: u32
  visited :: "ptr list"

text \<open>
  How a run can stop short of \<^verbatim>\<open>return 0\<close>: the unsigned division of line 67 traps on a
  zero divisor, and \<^verbatim>\<open>ARC_HANG\<close> halts the processor for good. Either comes with the
  state at that moment.
\<close>

datatype fault = DivideError | Hang

section \<open>The tag walk\<close>

text \<open>Lines 77 to 85: the running maximum over the entries \<open>i, \<dots>, n - 1\<close>.\<close>

function scan_mmap :: "memory \<Rightarrow> ptr \<Rightarrow> nat \<Rightarrow> nat \<Rightarrow> u64 \<Rightarrow> u64" where
  "scan_mmap m mp n i h =
     (if i < n then
        let entry = read_entry m mp i in
        scan_mmap m mp n (Suc i)
          (if h < entry_addr entry + entry_len entry
           then entry_addr entry + entry_len entry else h)
      else h)"
  by pat_completeness auto
termination
  by (relation "measure (\<lambda>(m, mp, n, i, h). n - i)") auto

declare scan_mmap.simps [simp del]

text \<open>
  \<^verbatim>\<open>case MULTIBOOT_TAG_TYPE_MMAP\<close>. \<^verbatim>\<open>mmap->size - sizeof(struct multiboot_tag_mmap)\<close> and
  the division are unsigned 32-bit; the quotient is stored in the \<^verbatim>\<open>int entries\<close>, and
  \<^verbatim>\<open>i < entries\<close> compares signed.
\<close>

definition case_mmap :: "'s world \<Rightarrow> frame \<Rightarrow> fault \<times> 's world + 's world \<times> frame" where
  "case_mmap w f =
     (let mp = tag f;
          size = read_u32 (mem w) (mp + 4);
          entry_size = read_u32 (mem w) (mp + 8)
      in if entry_size = 0 then Inl (DivideError, w)
         else
           let n = (size - 16) div entry_size;
               h = scan_mmap (mem w) mp (nat (sint n)) 0 (highest_address (boot_meta w))
           in Inr (w\<lparr>boot_meta := (boot_meta w)\<lparr>highest_address := h\<rparr>\<rparr>,
                   f\<lparr>mmap := mp, entries := n\<rparr>))"

text \<open>
  \<^verbatim>\<open>case MULTIBOOT_TAG_TYPE_MODULE\<close>: \<^verbatim>\<open>mod_start\<close> at offset 8, \<^verbatim>\<open>mod_end\<close> at 12,
  \<^verbatim>\<open>cmdline\<close> from 16 on.
\<close>

definition case_module :: "'s world \<Rightarrow> frame \<Rightarrow> 's world \<times> frame" where
  "case_module w f =
     (let mod_start = read_u32 (mem w) (tag f + 8);
          mod_end = read_u32 (mem w) (tag f + 12);
          bm = boot_meta w;
          bm' =
            (if strcmp_eq (mem w) (tag f + 16) ''arctan-module.kernel.elf''
             then bm\<lparr>kernel_elf := ucast mod_start\<rparr>
             else if strcmp_eq (mem w) (tag f + 16) ''arctan-module.initramfs.cpio''
             then bm\<lparr>initramfs := ucast mod_start, initramfs_size := mod_end - mod_start\<rparr>
             else bm)
      in (w\<lparr>boot_meta := bm'\<rparr>,
          if ucast mod_end > bootstrap_end f then f\<lparr>bootstrap_end := ucast mod_end\<rparr> else f))"

text \<open>
  \<^verbatim>\<open>case MULTIBOOT_TAG_TYPE_FRAMEBUFFER\<close>: \<^verbatim>\<open>framebuffer_addr\<close> at offset 8,
  \<^verbatim>\<open>framebuffer_pitch\<close> at 16, \<^verbatim>\<open>framebuffer_width\<close> at 20, \<^verbatim>\<open>framebuffer_height\<close> at 24.
\<close>

definition case_framebuffer :: "'s world \<Rightarrow> frame \<Rightarrow> 's world \<times> frame" where
  "case_framebuffer w f =
     (let framebuffer_addr = read_u64 (mem w) (tag f + 8);
          framebuffer_pitch = read_u32 (mem w) (tag f + 16);
          framebuffer_width = read_u32 (mem w) (tag f + 20);
          framebuffer_height = read_u32 (mem w) (tag f + 24)
      in (w\<lparr>calls := calls w @
               [SetTerm (ucast framebuffer_addr) framebuffer_width framebuffer_height
                  framebuffer_pitch],
             mb2_boot_info := (mb2_boot_info w)\<lparr>fb := ucast (tag f)\<rparr>\<rparr>, f))"

text \<open>
  \<^verbatim>\<open>case MULTIBOOT_TAG_TYPE_ACPI_NEW: case MULTIBOOT_TAG_TYPE_ACPI_OLD:\<close> Line 157 casts the
  32-bit pointer straight to \<^verbatim>\<open>uint64_t\<close>, which the compiler sign-extends; the other
  addresses stored in 64-bit fields go through \<^verbatim>\<open>uintptr_t\<close> first and are zero-extended.
\<close>

definition case_acpi :: "'s world \<Rightarrow> frame \<Rightarrow> 's world \<times> frame" where
  "case_acpi w f = (w\<lparr>boot_meta := (boot_meta w)\<lparr>rsdp := scast (tag f + 8)\<rparr>\<rparr>, f)"

text \<open>
  The \<^verbatim>\<open>switch\<close> of lines 62 to 159, on the tag types of the Multiboot2 header:
  \<^verbatim>\<open>BOOT_LOADER_NAME\<close> 2, \<^verbatim>\<open>MODULE\<close> 3, \<^verbatim>\<open>BASIC_MEMINFO\<close> 4, \<^verbatim>\<open>MMAP\<close> 6,
  \<^verbatim>\<open>FRAMEBUFFER\<close> 8, \<^verbatim>\<open>ACPI_OLD\<close> 14, \<^verbatim>\<open>ACPI_NEW\<close> 15, \<^verbatim>\<open>LOAD_BASE_ADDR\<close> 21. The cases
  of types 2 and 4 only print. The case of type 21 prints and has no \<^verbatim>\<open>break\<close>, so control
  runs on into the ACPI cases below it. A type with no case leaves everything as it is.
\<close>

definition dispatch :: "'s world \<Rightarrow> frame \<Rightarrow> fault \<times> 's world + 's world \<times> frame" where
  "dispatch w f =
     (let type = read_u32 (mem w) (tag f) in
      if type = 6 then case_mmap w f
      else if type = 3 then Inr (case_module w f)
      else if type = 8 then Inr (case_framebuffer w f)
      else if type = 2 then Inr (w, f)
      else if type = 4 then Inr (w, f)
      else if type = 21 then Inr (case_acpi w f)
      else if type = 15 then Inr (case_acpi w f)
      else if type = 14 then Inr (case_acpi w f)
      else Inr (w, f))"

text \<open>
  The loop of lines 61 to 162. The condition reads \<^verbatim>\<open>tag->type\<close> first and compares
  \<^verbatim>\<open>tag\<close> with \<^verbatim>\<open>end\<close> second. A record of size 0 never moves \<^verbatim>\<open>tag\<close>, so the loop
  need not end: not returning is \<open>None\<close>.
\<close>

partial_function (option) walk ::
  "'s world \<Rightarrow> frame \<Rightarrow> (fault \<times> 's world + 's world \<times> frame) option" where
  "walk w f =
     (if read_u32 (mem w) (tag f) \<noteq> 0 \<and> tag f < end_ptr f then
        (case dispatch w f of
           Inl e \<Rightarrow> Some (Inl e)
         | Inr (w', f') \<Rightarrow>
             walk w'
               (f'\<lparr>tag := tag f' + ALIGN (read_u32 (mem w') (tag f' + 4)) 8,
                   visited := visited f' @ [tag f']\<rparr>))
      else Some (Inr (w, f)))"

section \<open>Building the direct map\<close>

text \<open>
  Lines 189 to 197: one \<^verbatim>\<open>map_page\<close> call per 4 KiB step \<open>j\<close> below \<^verbatim>\<open>entry.len\<close>. \<open>j\<close> is
  a \<^verbatim>\<open>uint64_t\<close> and wraps, so for a length within 4 KiB of \<open>2^64\<close> the loop need not end.
\<close>

partial_function (option) map_region ::
  "'s env \<Rightarrow> u64 \<Rightarrow> u64 \<Rightarrow> u64 \<Rightarrow> 's world \<Rightarrow> (fault \<times> 's world + 's world) option" where
  "map_region env base len j w =
     (if j < len then
        let linear = base + j;
            r = map_page env (ext w) (pml4 w) (linear + hhdm_vaddr (boot_meta w)) linear 1;
            w' = w\<lparr>pml4 := fst r, ext := snd r,
                   calls := calls w @
                     [MapPage (pml4 w) (linear + hhdm_vaddr (boot_meta w)) linear 1 (fst r)]\<rparr>
        in if fst r = 0 then Some (Inl (Hang, w'))
           else map_region env base len (j + 0x1000) w'
      else Some (Inr w))"

text \<open>The three assignments of lines 183 to 185, in their order.\<close>

definition write_ARC_MMap :: "memory \<Rightarrow> ptr \<Rightarrow> nat \<Rightarrow> multiboot_mmap_entry \<Rightarrow> memory" where
  "write_ARC_MMap m tbl i entry =
     write_u32
       (write_u64
          (write_u64 m (tbl + 20 * of_nat i + 4) (entry_addr entry))
          (tbl + 20 * of_nat i + 12) (entry_len entry))
       (tbl + 20 * of_nat i) (entry_type entry)"

text \<open>Lines 180 to 198, from entry \<open>i\<close> on; \<open>n\<close> is \<^verbatim>\<open>entries\<close> when positive, else 0.\<close>

function hhdm_loop ::
  "'s env \<Rightarrow> ptr \<Rightarrow> ptr \<Rightarrow> nat \<Rightarrow> nat \<Rightarrow> 's world \<Rightarrow> (fault \<times> 's world + 's world) option" where
  "hhdm_loop env mp mmap_entries n i w =
     (if i < n then
        let entry = read_entry (mem w) mp i;
            w' = w\<lparr>mem := write_ARC_MMap (mem w) mmap_entries i entry\<rparr>
        in (case map_region env (entry_addr entry) (entry_len entry) 0 w' of
              None \<Rightarrow> None
            | Some (Inl e) \<Rightarrow> Some (Inl e)
            | Some (Inr w'') \<Rightarrow> hhdm_loop env mp mmap_entries n (Suc i) w'')
      else Some (Inr w))"
  by pat_completeness auto
termination
  by (relation "measure (\<lambda>(env, mp, mmap_entries, n, i, w). n - i)") auto

declare hhdm_loop.simps [simp del]

text \<open>
  Lines 167 to 202. \<^verbatim>\<open>sizeof(struct ARC_MMap)\<close> is 20; the product and the quotient of
  line 169 are unsigned 32-bit. The result of \<^verbatim>\<open>init_pmm\<close> is not used, and the pointer
  from \<^verbatim>\<open>Arc_ListContiguousAlloc\<close> is used as it comes.
\<close>

definition bootstrap ::
  "'s env \<Rightarrow> 's world \<Rightarrow> frame \<Rightarrow> (fault \<times> 's world + u32 \<times> 's world) option" where
  "bootstrap env w f =
     (let w1 = w\<lparr>ext := init_pmm env (ext w) (mmap f) (ucast (bootstrap_end f)),
                 calls := calls w @ [InitPmm (mmap f) (ucast (bootstrap_end f))]\<rparr>;
          arc_mmap_size = (entries f * 20) div 0x1000;
          r = Arc_ListContiguousAlloc env (ext w1) arc_mmap_size;
          mmap_entries = fst r;
          w2 = w1\<lparr>ext := snd r,
                  calls := calls w1 @ [ContiguousAlloc arc_mmap_size mmap_entries]\<rparr>;
          w3 = w2\<lparr>mem := memset (mem w2) mmap_entries 0 arc_mmap_size\<rparr>;
          w4 = w3\<lparr>boot_meta := (boot_meta w3)
                  \<lparr>arc_mmap := ucast mmap_entries, arc_mmap_len := entries f\<rparr>\<rparr>;
          w5 = w4\<lparr>boot_meta := (boot_meta w4)\<lparr>hhdm_vaddr := 0xFFFFC00000000000\<rparr>\<rparr>
      in case hhdm_loop env (mmap f) mmap_entries (nat (sint (entries f))) 0 w5 of
           None \<Rightarrow> None
         | Some (Inl e) \<Rightarrow> Some (Inl e)
         | Some (Inr w6) \<Rightarrow>
             Some (Inr (0, w6\<lparr>boot_meta := (boot_meta w6)
                          \<lparr>boot_info := ucast (MB2_BOOT_INFO env)\<rparr>\<rparr>)))"

text \<open>
  \<^verbatim>\<open>read_mb2i\<close>. \<^verbatim>\<open>tag + tag->type\<close> is arithmetic on a \<^verbatim>\<open>struct multiboot_tag *\<close>, whose
  target is 8 bytes: \<^verbatim>\<open>end\<close> lies \<open>8 * total_size\<close> bytes past the start of the stream,
  \<^verbatim>\<open>total_size\<close> being the first word of the stream.
\<close>

definition read_mb2i ::
  "'s env \<Rightarrow> 's world \<Rightarrow> ptr \<Rightarrow> (fault \<times> 's world + u32 \<times> 's world) option" where
  "read_mb2i env w mb2i =
     (let w0 = w\<lparr>mb2_boot_info := (mb2_boot_info w)\<lparr>mbi_phys := ucast mb2i\<rparr>\<rparr>;
          f0 = \<lparr>tag = mb2i + 8, end_ptr = mb2i + 8 * read_u32 (mem w) mb2i, mmap = 0,
                bootstrap_end = ucast (BOOTSTRAP_END env), entries = 0, visited = []\<rparr>
      in case walk w0 f0 of
           None \<Rightarrow> None
         | Some (Inl e) \<Rightarrow> Some (Inl e)
         | Some (Inr (w1, f1)) \<Rightarrow> bootstrap env w1 f1)"

section \<open>Notions the properties are stated in\<close>

text \<open>A \<^verbatim>\<open>map_page\<close> call that returned null.\<close>

fun failed_map :: "event \<Rightarrow> bool" where
  "failed_map (MapPage pm v p fl r) = (r = 0)"
| "failed_map _ = False"

text \<open>The map requests among the calls: virtual address, physical address, flags.\<close>

fun requests :: "event list \<Rightarrow> (u64 \<times> u64 \<times> u32) list" where
  "requests [] = []"
| "requests (MapPage pm v p fl r # es) = (v, p, fl) # requests es"
| "requests (e # es) = requests es"





text \<open>The pointer line 170 gets from the allocator.\<close>

definition table_ptr :: "'s env \<Rightarrow> 's world \<Rightarrow> frame \<Rightarrow> ptr" where
  "table_ptr env w f =
     fst (Arc_ListContiguousAlloc env
            (init_pmm env (ext w) (mmap f) (ucast (bootstrap_end f)))
            ((entries f * 20) div 0x1000))"

text \<open>The state a run ends in, however it ends.\<close>

definition final_world :: "fault \<times> 's world + u32 \<times> 's world \<Rightarrow> 's world" where
  "final_world r = (case r of Inl (e, w) \<Rightarrow> w | Inr (v, w) \<Rightarrow> w)"

text \<open>The state in which line 180 is reached.\<close>

definition before_loop :: "'s env \<Rightarrow> 's world \<Rightarrow> frame \<Rightarrow> 's world" where
  "before_loop env w f =
     w\<lparr>ext := snd (Arc_ListContiguousAlloc env
            (init_pmm env (ext w) (mmap f) (ucast (bootstrap_end f)))
            ((entries f * 20) div 0x1000)),
       calls := calls w @ [InitPmm (mmap f) (ucast (bootstrap_end f)),
          ContiguousAlloc ((entries f * 20) div 0x1000) (table_ptr env w f)],
       mem := memset (mem w) (table_ptr env w f) 0 ((entries f * 20) div 0x1000),
       boot_meta := (boot_meta w)\<lparr>arc_mmap := ucast (table_ptr env w f),
         arc_mmap_len := entries f, hhdm_vaddr := 0xFFFFC00000000000\<rparr>\<rparr>"



text \<open>
  The locals after the body of the loop has run on a record: \<^verbatim>\<open>tag\<close> moved on by line 161,
  the record noted as visited.
\<close>

definition advance :: "'s world \<Rightarrow> frame \<Rightarrow> frame" where
  "advance w f = f\<lparr>tag := tag f + ALIGN (read_u32 (mem w) (tag f + 4)) 8,
     visited := visited f @ [tag f]\<rparr>"

text \<open>
  The state and the locals with which line 61 is first reached.
\<close>

definition entry_world :: "'s world \<Rightarrow> ptr \<Rightarrow> 's world" where
  "entry_world w mb2i = w\<lparr>mb2_boot_info := (mb2_boot_info w)\<lparr>mbi_phys := ucast mb2i\<rparr>\<rparr>"

definition entry_frame :: "'s env \<Rightarrow> 's world \<Rightarrow> ptr \<Rightarrow> frame" where
  "entry_frame env w mb2i =
     \<lparr>tag = mb2i + 8, end_ptr = mb2i + 8 * read_u32 (mem w) mb2i, mmap = 0,
      bootstrap_end = ucast (BOOTSTRAP_END env), entries = 0, visited = []\<rparr>"

text \<open>
  \<open>records m e t ts\<close>: from \<open>t\<close> on, the loop condition of line 61 holds at each address of
  \<open>ts\<close> in turn, line 161 leads from each to the next, and the condition fails after the
  last. These are the streams on which the walk comes to an end.
\<close>

fun records :: "memory \<Rightarrow> ptr \<Rightarrow> ptr \<Rightarrow> ptr list \<Rightarrow> bool" where
  "records m e t [] = (read_u32 m t = 0 \<or> e \<le> t)"
| "records m e t (x # xs) =
     (x = t \<and> read_u32 m t \<noteq> 0 \<and> t < e \<and> records m e (t + ALIGN (read_u32 m (t + 4)) 8) xs)"

text \<open>No \<^verbatim>\<open>MMAP\<close> record among \<open>ts\<close> has an \<^verbatim>\<open>entry_size\<close> of 0, the divisor of line 67.\<close>

definition divisible :: "memory \<Rightarrow> ptr list \<Rightarrow> bool" where
  "divisible m ts = list_all (\<lambda>t. read_u32 m t \<noteq> 6 \<or> read_u32 m (t + 8) \<noteq> 0) ts"

text \<open>
  The sums \<^verbatim>\<open>entry.addr + entry.len\<close> lines 77 to 85 compare on a record at \<open>t\<close>: none
  unless it is an \<^verbatim>\<open>MMAP\<close> record, and then one per entry, as many entries as line 67
  counts, each read where \<^verbatim>\<open>mmap->entries[i]\<close> lies. The sums are 64-bit.
\<close>

definition tag_ends :: "memory \<Rightarrow> ptr \<Rightarrow> u64 list" where
  "tag_ends m t =
     (if read_u32 m t = 6
      then map (\<lambda>i. entry_addr (read_entry m t i) + entry_len (read_entry m t i))
             [0..<nat (sint ((read_u32 m (t + 4) - 16) div read_u32 m (t + 8)))]
      else [])"

text \<open>
  The record at \<open>t\<close> is a \<^verbatim>\<open>MODULE\<close> record whose \<^verbatim>\<open>cmdline\<close> is the name line 99, or line
  102, compares it with.
\<close>

definition kernel_module :: "memory \<Rightarrow> ptr \<Rightarrow> bool" where
  "kernel_module m t = (read_u32 m t = 3 \<and> strcmp_eq m (t + 16) ''arctan-module.kernel.elf'')"

definition initramfs_module :: "memory \<Rightarrow> ptr \<Rightarrow> bool" where
  "initramfs_module m t =
     (read_u32 m t = 3 \<and> strcmp_eq m (t + 16) ''arctan-module.initramfs.cpio'')"

section \<open>Streams to run on\<close>

text \<open>
  The memory that holds the 32-bit words \<open>ws\<close> from \<open>base\<close> on, little-endian, and 0
  everywhere else.
\<close>

definition mem_of :: "ptr \<Rightarrow> u32 list \<Rightarrow> memory" where
  "mem_of base ws = (\<lambda>a. let k = unat (a - base) in
      if k < 4 * length ws then ucast (drop_bit (8 * (k mod 4)) (ws ! (k div 4))) else 0)"

definition zero_meta :: ARC_BootMeta where
  "zero_meta = \<lparr>boot_proc = 0, boot_info = 0, pmm_state = 0, highest_address = 0,
     kernel_elf = 0, initramfs = 0, initramfs_size = 0, state = 0, hhdm_vaddr = 0,
     arc_mmap = 0, arc_mmap_len = 0, rsdp = 0\<rparr>"

text \<open>The state at entry: \<^verbatim>\<open>_boot_meta\<close> all zero, no call made yet.\<close>

definition boot_world :: "memory \<Rightarrow> nat world" where
  "boot_world m = \<lparr>mem = m, boot_meta = zero_meta, mb2_boot_info = \<lparr>mbi_phys = 0, fb = 0\<rparr>,
     pml4 = 0x1000, ext = 0, calls = []\<rparr>"

text \<open>
  Collaborators that count the \<^verbatim>\<open>map_page\<close> calls: the call number \<open>k\<close> (from 0) returns
  null, every other one the table it was given; the allocator hands out \<open>tbl\<close>.
\<close>

definition counting_env :: "nat \<Rightarrow> ptr \<Rightarrow> nat env" where
  "counting_env k tbl = \<lparr>BOOTSTRAP_END = 0x100000, MB2_BOOT_INFO = 0x9000,
     init_pmm = (\<lambda>s mp b. s),
     Arc_ListContiguousAlloc = (\<lambda>s n. (tbl, s)),
     map_page = (\<lambda>s pm v p fl. (if s = k then 0 else pm, Suc s))\<rparr>"

text \<open>
  A stream of 32 bytes at \<open>0x10000\<close>: the header, one \<^verbatim>\<open>LOAD_BASE_ADDR\<close> record (type 21,
  size 12, padded to 16) and the terminator. It holds no ACPI record.
\<close>

definition load_base_stream :: memory where
  "load_base_stream = mem_of 0x10000 [32, 0, 21, 12, 0x100000, 0, 0, 8]"

text \<open>
  A stream of 80 bytes at \<open>0x10000\<close>: the header, one \<^verbatim>\<open>MMAP\<close> record at \<open>0x10008\<close> (type 6,
  size 64, entry size 24) with the two entries (base \<open>0x100000\<close>, length \<open>0x2800\<close>, type 1)
  and (base 0, length \<open>0x1000\<close>, type 2), and the terminator.
\<close>

definition mmap_stream :: memory where
  "mmap_stream = mem_of 0x10000
     [80, 0,
      6, 64, 24, 0,
      0x100000, 0, 0x2800, 0, 1, 0,
      0, 0, 0x1000, 0, 2, 0,
      0, 8]"

text \<open>The locals as the walk over \<open>mmap_stream\<close> leaves them.\<close>

definition mmap_frame :: frame where
  "mmap_frame = \<lparr>tag = 0x10048, end_ptr = 0x10280, mmap = 0x10008, bootstrap_end = 0x100000,
     entries = 2, visited = [0x10008]\<rparr>"




text \<open>
  A stream of 112 bytes with two \<^verbatim>\<open>MODULE\<close> records, at \<open>0x10008\<close> and \<open>0x10038\<close>, both
  named \<^verbatim>\<open>arctan-module.kernel.elf\<close>: the first from \<open>0x200000\<close> to \<open>0x280000\<close>, the second
  from \<open>0x300000\<close> to \<open>0x380000\<close>.
\<close>

definition two_kernel_stream :: memory where
  "two_kernel_stream = mem_of 0x10000
     [112, 0,
      3, 41, 0x200000, 0x280000,
      0x74637261, 0x6d2d6e61, 0x6c75646f, 0x656b2e65, 0x6c656e72, 0x666c652e, 0, 0,
      3, 41, 0x300000, 0x380000,
      0x74637261, 0x6d2d6e61, 0x6c75646f, 0x656b2e65, 0x6c656e72, 0x666c652e, 0, 0,
      0, 8]"

text \<open>
  The same with the second record named \<^verbatim>\<open>arctan-module.initramfs.cpio\<close>, from \<open>0x300000\<close>
  to \<open>0x340000\<close>.
\<close>

definition modules_stream :: memory where
  "modules_stream = mem_of 0x10000
     [112, 0,
      3, 41, 0x200000, 0x280000,
      0x74637261, 0x6d2d6e61, 0x6c75646f, 0x656b2e65, 0x6c656e72, 0x666c652e, 0, 0,
      3, 45, 0x300000, 0x340000,
      0x74637261, 0x6d2d6e61, 0x6c75646f, 0x6e692e65, 0x61727469, 0x2e73666d, 0x6f697063, 0,
      0, 8]"

text \<open>
  A stream that declares 24 bytes: the header and one \<^verbatim>\<open>BOOT_LOADER_NAME\<close> record (type 2,
  size 9, padded to 16) at \<open>0x10008\<close>. It has no terminator; the memory that follows it, from
  \<open>0x10018\<close> on, happens to hold the words 14, 8, 0, 8.
\<close>

definition short_stream :: memory where
  "short_stream = mem_of 0x10000 [24, 0, 2, 9, 0, 0, 14, 8, 0, 8]"

section \<open>Running the definitions\<close>

lemma u32_bytes:
  "ucast (ucast v :: u8) OR push_bit 8 (ucast (ucast (drop_bit 8 v) :: u8)) OR
     push_bit 16 (ucast (ucast (drop_bit 16 v) :: u8)) OR
     push_bit 24 (ucast (ucast (drop_bit 24 v) :: u8)) = (v :: u32)"
proof (rule bit_word_eqI)
  fix n assume "n < LENGTH(32)"
  then have "n < 8 \<or> (8 \<le> n \<and> n < 16) \<or> (16 \<le> n \<and> n < 24) \<or> (24 \<le> n \<and> n < 32)"
    by auto
  then show "bit (ucast (ucast v :: u8) OR push_bit 8 (ucast (ucast (drop_bit 8 v) :: u8)) OR
     push_bit 16 (ucast (ucast (drop_bit 16 v) :: u8)) OR
     push_bit 24 (ucast (ucast (drop_bit 24 v) :: u8)) :: u32) n = bit v n"
    by (auto simp: bit_simps)
qed

lemma unat_ptr_bound: "unat (x :: ptr) < 2 ^ 32"
  using unsigned_less [of x, where 'a = nat] by simp

lemma unat_off: "unat (x :: ptr) + k < 2 ^ 32 \<Longrightarrow> unat (x + of_nat k) = unat x + k"
  by (simp add: unat_word_ariths unat_of_nat)

lemma mem_of_at:
  "mem_of base ws a =
     (if unat (a - base) < 4 * length ws
      then ucast (drop_bit (8 * (unat (a - base) mod 4)) (ws ! (unat (a - base) div 4)))
      else 0)"
  by (simp add: mem_of_def Let_def)

lemma mem_of_byte:
  assumes "unat (a - base) = 4 * i + k" "k < 4" "i < length ws"
  shows "mem_of base ws a = ucast (drop_bit (8 * k) (ws ! i))"
  using assms by (simp add: mem_of_def)

lemma read_u32_mem_of:
  assumes "unat (a - base) mod 4 = 0" "unat (a - base) div 4 < length ws"
  shows "read_u32 (mem_of base ws) a = ws ! (unat (a - base) div 4)"
proof -
  define i where "i = unat (a - base) div 4"
  have u: "unat (a - base) = 4 * i" unfolding i_def using assms(1) by presburger
  have il: "i < length ws" using assms(2) by (simp add: i_def)
  have small: "4 * i + 3 < 2 ^ 32"
    using unat_ptr_bound [of "a - base"] u by simp
  have off: "unat (a + of_nat k - base) = 4 * i + k" if "k < 4" for k
  proof -
    have e: "a + of_nat k - base = (a - base) + of_nat k" by simp
    have "unat ((a - base) + of_nat k) = unat (a - base) + k"
      using small that u by (intro unat_off) simp
    then show ?thesis unfolding e u .
  qed
  have b0: "mem_of base ws a = ucast (ws ! i)"
    using mem_of_byte [of a base i 0 ws] u il by simp
  have b1: "mem_of base ws (a + 1) = ucast (drop_bit 8 (ws ! i))"
    using mem_of_byte [of "a + 1" base i 1 ws] off [of 1] il by simp
  have b2: "mem_of base ws (a + 2) = ucast (drop_bit 16 (ws ! i))"
    using mem_of_byte [of "a + 2" base i 2 ws] off [of 2] il by simp
  have b3: "mem_of base ws (a + 3) = ucast (drop_bit 24 (ws ! i))"
    using mem_of_byte [of "a + 3" base i 3 ws] off [of 3] il by simp
  show ?thesis
    unfolding read_u32_def b0 b1 b2 b3 i_def [symmetric] by (rule u32_bytes)
qed

lemma memset_none: "memset m s c 0 = m"
  by (simp add: memset_def)

lemma walk_stop: "read_u32 (mem w) (tag f) = 0 \<Longrightarrow> walk w f = Some (Inr (w, f))"
  by (subst walk.simps) simp

lemma walk_end: "\<not> tag f < end_ptr f \<Longrightarrow> walk w f = Some (Inr (w, f))"
  by (subst walk.simps) simp

lemma walk_step:
  "read_u32 (mem w) (tag f) \<noteq> 0 \<Longrightarrow> tag f < end_ptr f \<Longrightarrow>
   walk w f =
     (case dispatch w f of
        Inl e \<Rightarrow> Some (Inl e)
      | Inr (w', f') \<Rightarrow>
          walk w'
            (f'\<lparr>tag := tag f' + ALIGN (read_u32 (mem w') (tag f' + 4)) 8,
                visited := visited f' @ [tag f']\<rparr>))"
  by (subst walk.simps) simp

lemma map_region_done: "\<not> j < len \<Longrightarrow> map_region env base len j w = Some (Inr w)"
  by (subst map_region.simps) simp

lemma map_region_step:
  "j < len \<Longrightarrow>
   map_region env base len j w =
     (let linear = base + j;
          r = map_page env (ext w) (pml4 w) (linear + hhdm_vaddr (boot_meta w)) linear 1;
          w' = w\<lparr>pml4 := fst r, ext := snd r,
                 calls := calls w @
                   [MapPage (pml4 w) (linear + hhdm_vaddr (boot_meta w)) linear 1 (fst r)]\<rparr>
      in if fst r = 0 then Some (Inl (Hang, w'))
         else map_region env base len (j + 0x1000) w')"
  by (subst map_region.simps) simp

lemma scan_mmap_done: "\<not> i < n \<Longrightarrow> scan_mmap m mp n i h = h"
  by (subst scan_mmap.simps) simp

lemma scan_mmap_step:
  "i < n \<Longrightarrow>
   scan_mmap m mp n i h =
     scan_mmap m mp n (Suc i)
       (if h < entry_addr (read_entry m mp i) + entry_len (read_entry m mp i)
        then entry_addr (read_entry m mp i) + entry_len (read_entry m mp i) else h)"
  by (subst scan_mmap.simps) (simp add: Let_def)

lemma hhdm_loop_done: "\<not> i < n \<Longrightarrow> hhdm_loop env mp mmap_entries n i w = Some (Inr w)"
  by (subst hhdm_loop.simps) simp

lemma hhdm_loop_step:
  "i < n \<Longrightarrow>
   hhdm_loop env mp mmap_entries n i w =
     (let entry = read_entry (mem w) mp i;
          w' = w\<lparr>mem := write_ARC_MMap (mem w) mmap_entries i entry\<rparr>
      in (case map_region env (entry_addr entry) (entry_len entry) 0 w' of
            None \<Rightarrow> None
          | Some (Inl e) \<Rightarrow> Some (Inl e)
          | Some (Inr w'') \<Rightarrow> hhdm_loop env mp mmap_entries n (Suc i) w''))"
  by (subst hhdm_loop.simps) simp

lemmas run_walk =
  walk_stop walk_end walk_step dispatch_def case_mmap_def case_module_def
  case_framebuffer_def case_acpi_def ALIGN_def read_u32_mem_of read_u64_def read_entry_def
  scan_mmap_done scan_mmap_step boot_world_def zero_meta_def

lemmas run_bootstrap =
  bootstrap_def hhdm_loop_done hhdm_loop_step map_region_done map_region_step
  counting_env_def memset_none

section \<open>Memory\<close>


lemma write_u32_out: "4 \<le> unat (x - a) \<Longrightarrow> write_u32 m a v x = m x"
  unfolding write_u32_def by auto

lemma unat_sub_off:
  fixes x a :: ptr
  assumes "n + k \<le> unat (x - a)"
  shows "n \<le> unat (x - (a + of_nat k))"
proof -
  have b: "unat (x - a) < 2 ^ 32" by (rule unat_ptr_bound)
  have k: "k < 2 ^ 32" using assms b by simp
  have e: "x - (a + of_nat k) = (x - a) - of_nat k" by simp
  have "unat ((x - a) - of_nat k :: ptr) = unat (x - a) - k"
    using assms k by (simp add: unat_sub_if' unat_of_nat)
  then show ?thesis unfolding e using assms by simp
qed

lemma write_u64_out: "8 \<le> unat (x - a) \<Longrightarrow> write_u64 m a v x = m x"
  unfolding write_u64_def
  using unat_sub_off [of 4 4 x a] by (simp add: write_u32_out)


lemma read_u32_same:
  "m' a = m a \<Longrightarrow> m' (a + 1) = m (a + 1) \<Longrightarrow> m' (a + 2) = m (a + 2) \<Longrightarrow>
   m' (a + 3) = m (a + 3) \<Longrightarrow> read_u32 m' a = read_u32 m a"
  by (simp add: read_u32_def)

lemma read_u32_eq:
  assumes "\<And>k. k < 4 \<Longrightarrow> m' (a + of_nat k) = m (a + of_nat k)"
  shows "read_u32 m' a = read_u32 m a"
  using assms [of 0] assms [of 1] assms [of 2] assms [of 3] by (simp add: read_u32_def)

lemma read_u64_eq:
  assumes "\<And>k. k < 8 \<Longrightarrow> m' (a + of_nat k) = m (a + of_nat k)"
  shows "read_u64 m' a = read_u64 m a"
proof -
  have "read_u32 m' a = read_u32 m a"
    using assms by (intro read_u32_eq) simp
  moreover have "read_u32 m' (a + 4) = read_u32 m (a + 4)"
  proof (rule read_u32_eq)
    fix k :: nat assume "k < 4"
    then show "m' (a + 4 + of_nat k) = m (a + 4 + of_nat k)"
      using assms [of "4 + k"] by (simp add: add.assoc)
  qed
  ultimately show ?thesis by (simp add: read_u64_def)
qed


lemma out_of_range:
  fixes x p :: ptr
  assumes "unat p + n \<le> 2 ^ 32" "unat x < unat p \<or> unat p + n \<le> unat x"
  shows "n \<le> unat (x - p)"
  using assms unat_ptr_bound [of x] by (auto simp: unat_sub_if')

lemma slot_addr:
  assumes "unat (tbl :: ptr) + 20 * i + 20 \<le> 2 ^ 32"
  shows "unat (tbl + 20 * of_nat i) = unat tbl + 20 * i"
proof -
  have e: "tbl + 20 * of_nat i = tbl + of_nat (20 * i)" by simp
  have "unat (tbl + of_nat (20 * i)) = unat tbl + 20 * i"
    using assms by (intro unat_off) simp
  then show ?thesis unfolding e .
qed

lemma entry_addr_nat:
  assumes "unat (mp :: ptr) + 16 + 24 * k + 24 \<le> 2 ^ 32"
  shows "unat (mp + 16 + 24 * of_nat k) = unat mp + 16 + 24 * k"
proof -
  have e: "mp + 16 + 24 * of_nat k = mp + of_nat (16 + 24 * k)" by simp
  have "unat (mp + of_nat (16 + 24 * k)) = unat mp + (16 + 24 * k)"
    using assms by (intro unat_off) simp
  then show ?thesis unfolding e by simp
qed

lemma write_ARC_MMap_out:
  assumes "unat tbl + 20 * i + 20 \<le> 2 ^ 32"
    "unat x < unat tbl + 20 * i \<or> unat tbl + 20 * i + 20 \<le> unat x"
  shows "write_ARC_MMap m tbl i e x = m x"
proof -
  define p where "p = tbl + 20 * of_nat i"
  have up: "unat p = unat tbl + 20 * i" unfolding p_def by (rule slot_addr [OF assms(1)])
  have far: "20 \<le> unat (x - p)"
    using assms up by (intro out_of_range) auto
  have a: "8 \<le> unat (x - (p + 4))" using unat_sub_off [of 8 4 x p] far by simp
  have b: "8 \<le> unat (x - (p + 12))" using unat_sub_off [of 8 12 x p] far by simp
  have c: "4 \<le> unat (x - p)" using far by simp
  show ?thesis
    unfolding write_ARC_MMap_def p_def [symmetric]
    by (simp add: write_u32_out [OF c] write_u64_out [OF a] write_u64_out [OF b])
qed


lemma read_u32_in:
  assumes "off + 4 \<le> len" "unat p + len \<le> 2 ^ 32"
    "\<And>x. unat p \<le> unat x \<Longrightarrow> unat x < unat p + len \<Longrightarrow> m' x = m x"
  shows "read_u32 m' (p + of_nat off) = read_u32 m (p + of_nat off)"
proof (rule read_u32_eq)
  fix k :: nat assume k: "k < 4"
  have e: "p + of_nat off + of_nat k = p + of_nat (off + k)" by simp
  have u: "unat (p + of_nat (off + k)) = unat p + (off + k)"
    using assms(1,2) k by (intro unat_off) simp
  show "m' (p + of_nat off + of_nat k) = m (p + of_nat off + of_nat k)"
    unfolding e using u assms(1) k by (intro assms(3)) simp_all
qed

lemma read_u64_in:
  assumes "off + 8 \<le> len" "unat p + len \<le> 2 ^ 32"
    "\<And>x. unat p \<le> unat x \<Longrightarrow> unat x < unat p + len \<Longrightarrow> m' x = m x"
  shows "read_u64 m' (p + of_nat off) = read_u64 m (p + of_nat off)"
proof (rule read_u64_eq)
  fix k :: nat assume k: "k < 8"
  have e: "p + of_nat off + of_nat k = p + of_nat (off + k)" by simp
  have u: "unat (p + of_nat (off + k)) = unat p + (off + k)"
    using assms(1,2) k by (intro unat_off) simp
  show "m' (p + of_nat off + of_nat k) = m (p + of_nat off + of_nat k)"
    unfolding e using u assms(1) k by (intro assms(3)) simp_all
qed

lemma read_entry_same:
  assumes "unat mp + 16 + 24 * k + 24 \<le> 2 ^ 32"
    "\<And>x. unat mp + 16 + 24 * k \<le> unat x \<Longrightarrow> unat x < unat mp + 16 + 24 * k + 24 \<Longrightarrow> m' x = m x"
  shows "read_entry m' mp k = read_entry m mp k"
proof -
  define p where "p = mp + 16 + 24 * of_nat k"
  have up: "unat p = unat mp + 16 + 24 * k" unfolding p_def by (rule entry_addr_nat [OF assms(1)])
  have sm: "\<And>x. unat p \<le> unat x \<Longrightarrow> unat x < unat p + 24 \<Longrightarrow> m' x = m x"
    using assms(2) up by simp
  have fit: "unat p + 24 \<le> 2 ^ 32" using assms(1) up by simp
  have a: "read_u64 m' p = read_u64 m p"
    using read_u64_in [of 0 24 p m' m] fit sm by simp
  have b: "read_u64 m' (p + 8) = read_u64 m (p + 8)"
    using read_u64_in [of 8 24 p m' m] fit sm by simp
  have c: "read_u32 m' (p + 16) = read_u32 m (p + 16)"
    using read_u32_in [of 16 24 p m' m] fit sm by simp
  have d: "read_u32 m' (p + 20) = read_u32 m (p + 20)"
    using read_u32_in [of 20 24 p m' m] fit sm by simp
  show ?thesis unfolding read_entry_def p_def [symmetric] using a b c d by simp
qed


section \<open>The two mapping loops\<close>

lemma requests_append: "requests (xs @ ys) = requests xs @ requests ys"
  by (induction xs rule: requests.induct) auto

lemmas map_region_induct = map_region.raw_induct [rotated 1, consumes 1, case_names step]

text \<open>What a run of the inner loop leaves behind, whichever way it ends.\<close>

lemma map_region_calls:
  assumes "map_region env base len j w = Some r"
  shows "(case r of
      Inr w' \<Rightarrow> mem w' = mem w \<and> boot_meta w' = boot_meta w \<and> mb2_boot_info w' = mb2_boot_info w \<and>
        (\<exists>cs. calls w' = calls w @ cs \<and> \<not> list_ex failed_map cs)
    | Inl (e, w') \<Rightarrow> e = Hang \<and> mem w' = mem w \<and> boot_meta w' = boot_meta w \<and>
        mb2_boot_info w' = mb2_boot_info w \<and>
        (\<exists>cs c. calls w' = calls w @ cs @ [c] \<and> failed_map c \<and> \<not> list_ex failed_map cs))"
  using assms
proof (induction env base len j w r rule: map_region_induct)
  case (step map_region env base len j w r)
  note 1 = step
  show ?case
  proof (cases "j < len")
    case False
    with 1(2) show ?thesis by auto
  next
    case True
    define linear where "linear = base + j"
    define mp where "mp = map_page env (ext w) (pml4 w) (linear + hhdm_vaddr (boot_meta w)) linear 1"
    define c where "c = MapPage (pml4 w) (linear + hhdm_vaddr (boot_meta w)) linear 1 (fst mp)"
    define w1 where "w1 = w\<lparr>pml4 := fst mp, ext := snd mp, calls := calls w @ [c]\<rparr>"
    have eq: "(if fst mp = 0 then Some (Inl (Hang, w1)) else map_region env base len (j + 0x1000) w1) = Some r"
      using 1(2) True unfolding linear_def mp_def c_def w1_def by (simp only: if_True Let_def)
    show ?thesis
    proof (cases "fst mp = 0")
      case True
      then have r: "r = Inl (Hang, w1)" using eq by simp
      have "calls w1 = calls w @ [] @ [c]" "failed_map c"
        using True by (simp_all add: w1_def c_def)
      then show ?thesis unfolding r by (auto simp: w1_def)
    next
      case False
      then have rec: "map_region env base len (j + 0x1000) w1 = Some r" using eq by simp
      have nf: "\<not> failed_map c" using False by (simp add: c_def)
      note ih = 1(1) [OF rec]
      show ?thesis
      proof (cases r)
        case (Inr w')
        with ih obtain cs where "calls w' = calls w1 @ cs" "\<not> list_ex failed_map cs"
          and "mem w' = mem w1" "boot_meta w' = boot_meta w1" "mb2_boot_info w' = mb2_boot_info w1"
          by auto
        then have "calls w' = calls w @ (c # cs)" "\<not> list_ex failed_map (c # cs)"
          "mem w' = mem w" "boot_meta w' = boot_meta w" "mb2_boot_info w' = mb2_boot_info w"
          using nf by (simp_all add: w1_def)
        then show ?thesis unfolding Inr by auto
      next
        case (Inl p)
        obtain e w' where p: "p = (e, w')" by (cases p)
        with ih Inl obtain cs c' where "calls w' = calls w1 @ cs @ [c']" "failed_map c'"
          "\<not> list_ex failed_map cs" and "e = Hang"
          and "mem w' = mem w1" "boot_meta w' = boot_meta w1" "mb2_boot_info w' = mb2_boot_info w1"
          by auto
        then have "calls w' = calls w @ (c # cs) @ [c']" "\<not> list_ex failed_map (c # cs)"
          "mem w' = mem w" "boot_meta w' = boot_meta w" "mb2_boot_info w' = mb2_boot_info w"
          using nf by (simp_all add: w1_def)
        then show ?thesis unfolding Inl p using \<open>e = Hang\<close> \<open>failed_map c'\<close>
          by auto
      qed
    qed
  qed
qed








lemma hhdm_loop_unfold:
  assumes "i < n" "hhdm_loop env mp tbl n i w = Some r"
  obtains (hang) w2 where
      "map_region env (entry_addr (read_entry (mem w) mp i)) (entry_len (read_entry (mem w) mp i)) 0
         (w\<lparr>mem := write_ARC_MMap (mem w) tbl i (read_entry (mem w) mp i)\<rparr>) = Some (Inl (Hang, w2))"
      "r = Inl (Hang, w2)"
  | (go) w2 where
      "map_region env (entry_addr (read_entry (mem w) mp i)) (entry_len (read_entry (mem w) mp i)) 0
         (w\<lparr>mem := write_ARC_MMap (mem w) tbl i (read_entry (mem w) mp i)\<rparr>) = Some (Inr w2)"
      "hhdm_loop env mp tbl n (Suc i) w2 = Some r"
proof -
  define e where "e = read_entry (mem w) mp i"
  define w1 where "w1 = w\<lparr>mem := write_ARC_MMap (mem w) tbl i e\<rparr>"
  have eq: "(case map_region env (entry_addr e) (entry_len e) 0 w1 of
              None \<Rightarrow> None
            | Some (Inl x) \<Rightarrow> Some (Inl x)
            | Some (Inr w'') \<Rightarrow> hhdm_loop env mp tbl n (Suc i) w'') = Some r"
    using assms(2) hhdm_loop_step [OF assms(1), of env mp tbl w]
    unfolding e_def w1_def by (simp only: Let_def)
  show thesis
  proof (cases "map_region env (entry_addr e) (entry_len e) 0 w1")
    case None
    with eq show ?thesis by simp
  next
    case (Some r1)
    show ?thesis
    proof (cases r1)
      case (Inl p)
      obtain f w2 where p: "p = (f, w2)" by (cases p)
      have "f = Hang" using map_region_calls [OF Some] Inl p by simp
      then show ?thesis using hang [of w2] Some Inl p eq unfolding e_def w1_def by simp
    next
      case (Inr w2)
      then show ?thesis using go [of w2] Some eq unfolding e_def w1_def by simp
    qed
  qed
qed

lemma hhdm_loop_calls:
  assumes "hhdm_loop env mp tbl n i w = Some r"
  shows "(case r of
      Inr w' \<Rightarrow> boot_meta w' = boot_meta w \<and> mb2_boot_info w' = mb2_boot_info w \<and>
        (\<exists>cs. calls w' = calls w @ cs \<and> \<not> list_ex failed_map cs)
    | Inl (e, w') \<Rightarrow> e = Hang \<and> boot_meta w' = boot_meta w \<and>
        mb2_boot_info w' = mb2_boot_info w \<and>
        (\<exists>cs c. calls w' = calls w @ cs @ [c] \<and> failed_map c \<and> \<not> list_ex failed_map cs))"
  using assms
proof (induction env mp tbl n i w arbitrary: r rule: hhdm_loop.induct)
  case (1 env mp tbl n i w)
  show ?case
  proof (cases "i < n")
    case False
    then have "r = Inr w" using "1.prems" by (simp add: hhdm_loop_done)
    then show ?thesis by simp
  next
    case True
    define w1 where "w1 = w\<lparr>mem := write_ARC_MMap (mem w) tbl i (read_entry (mem w) mp i)\<rparr>"
    from True "1.prems" show ?thesis
    proof (cases rule: hhdm_loop_unfold)
      case (hang w2)
      show ?thesis using map_region_calls [OF hang(1)] hang(2) by simp
    next
      case (go w2)
      have ih: "(case r of
          Inr w' \<Rightarrow> boot_meta w' = boot_meta w2 \<and> mb2_boot_info w' = mb2_boot_info w2 \<and>
            (\<exists>cs. calls w' = calls w2 @ cs \<and> \<not> list_ex failed_map cs)
        | Inl (e, w') \<Rightarrow> e = Hang \<and> boot_meta w' = boot_meta w2 \<and>
            mb2_boot_info w' = mb2_boot_info w2 \<and>
            (\<exists>cs c. calls w' = calls w2 @ cs @ [c] \<and> failed_map c \<and> \<not> list_ex failed_map cs))"
        by (rule "1.IH" [OF True refl refl go(1) refl go(2)])
      from map_region_calls [OF go(1)] obtain cs1 where
        m: "boot_meta w2 = boot_meta w" "mb2_boot_info w2 = mb2_boot_info w"
          "calls w2 = calls w @ cs1" "\<not> list_ex failed_map cs1"
        by auto
      show ?thesis
      proof (cases r)
        case (Inr w')
        with ih obtain cs where "calls w' = calls w2 @ cs" "\<not> list_ex failed_map cs"
          "boot_meta w' = boot_meta w2" "mb2_boot_info w' = mb2_boot_info w2" by auto
        then have "calls w' = calls w @ (cs1 @ cs)" "\<not> list_ex failed_map (cs1 @ cs)"
          "boot_meta w' = boot_meta w" "mb2_boot_info w' = mb2_boot_info w"
          using m by simp_all
        then show ?thesis unfolding Inr by auto
      next
        case (Inl p)
        obtain e w' where p: "p = (e, w')" by (cases p)
        with ih Inl obtain cs c where "calls w' = calls w2 @ cs @ [c]" "failed_map c"
          "\<not> list_ex failed_map cs" "e = Hang"
          "boot_meta w' = boot_meta w2" "mb2_boot_info w' = mb2_boot_info w2" by auto
        then have "calls w' = calls w @ (cs1 @ cs) @ [c]" "\<not> list_ex failed_map (cs1 @ cs)"
          "boot_meta w' = boot_meta w" "mb2_boot_info w' = mb2_boot_info w"
          using m by simp_all
        then show ?thesis unfolding Inl p using \<open>e = Hang\<close> \<open>failed_map c\<close> by auto
      qed
    qed
  qed
qed



section \<open>After the walk\<close>

lemma bootstrap_unfold:
  "bootstrap env w f =
     (case hhdm_loop env (mmap f) (table_ptr env w f) (nat (sint (entries f))) 0
             (before_loop env w f) of
        None \<Rightarrow> None
      | Some (Inl e) \<Rightarrow> Some (Inl e)
      | Some (Inr w6) \<Rightarrow>
          Some (Inr (0, w6\<lparr>boot_meta := (boot_meta w6)
                       \<lparr>boot_info := ucast (MB2_BOOT_INFO env)\<rparr>\<rparr>)))"
  by (simp add: bootstrap_def before_loop_def table_ptr_def Let_def)







lemma read_entry_write:
  assumes "unat tbl + 20 * i + 20 \<le> 2 ^ 32" "unat mp + 16 + 24 * k + 24 \<le> 2 ^ 32"
    "unat tbl + 20 * i + 20 \<le> unat mp + 16 + 24 * k \<or>
     unat mp + 16 + 24 * k + 24 \<le> unat tbl + 20 * i"
  shows "read_entry (write_ARC_MMap m tbl i e) mp k = read_entry m mp k"
proof (rule read_entry_same [OF assms(2)])
  fix x :: ptr
  assume "unat mp + 16 + 24 * k \<le> unat x" "unat x < unat mp + 16 + 24 * k + 24"
  then have "unat x < unat tbl + 20 * i \<or> unat tbl + 20 * i + 20 \<le> unat x"
    using assms(3) by auto
  then show "write_ARC_MMap m tbl i e x = m x" by (rule write_ARC_MMap_out [OF assms(1)])
qed

lemmas read_entry_mem_of = read_entry_def [of "mem_of base ws" for base ws]

lemmas run_loops =
  bootstrap_unfold before_loop_def table_ptr_def hhdm_loop_done hhdm_loop_step
  map_region_done map_region_step counting_env_def memset_none read_entry_write
  read_entry_mem_of read_u64_def read_u32_mem_of boot_world_def zero_meta_def Let_def

lemma mmap_bootstrap_runs:
  "\<exists>w'. bootstrap (counting_env 4 0x200000) (boot_world mmap_stream) mmap_frame = Some (Inr (0, w'))"
  by (simp add: run_loops mmap_stream_def mmap_frame_def)

lemma mmap_bootstrap_hangs:
  "\<exists>w'. bootstrap (counting_env 1 0x200000) (boot_world mmap_stream) mmap_frame
          = Some (Inl (Hang, w')) \<and>
        calls w' = [InitPmm 0x10008 0x100000, ContiguousAlloc 0 0x200000,
          MapPage 0x1000 0xFFFFC00000100000 0x100000 1 0x1000,
          MapPage 0x1000 0xFFFFC00000101000 0x101000 1 0]"
  by (simp add: run_loops mmap_stream_def mmap_frame_def)


subsection \<open>What a run that returned has done\<close>



subsection \<open>Runs that return\<close>















subsection \<open>The direct map\<close>




subsection \<open>The normalized memory map\<close>




subsection \<open>A failed map request\<close>

text \<open>
  C8. If any \<^verbatim>\<open>map_page\<close> call of a run returned null, the run did not return: it ended in
  \<^verbatim>\<open>ARC_HANG\<close>, the failed call is the last call made and the only failed one, and
  \<^verbatim>\<open>boot_info\<close> and \<^verbatim>\<open>mb2_boot_info\<close> are as they were when the second half began.
\<close>

theorem failed_mapping_halts:
  assumes "bootstrap env w f = Some r"
    "list_ex failed_map (drop (length (calls w)) (calls (final_world r)))"
  shows "\<exists>w'. r = Inl (Hang, w') \<and> failed_map (last (calls w')) \<and>
    \<not> list_ex failed_map (butlast (drop (length (calls w)) (calls w'))) \<and>
    boot_info (boot_meta w') = boot_info (boot_meta w) \<and>
    mb2_boot_info w' = mb2_boot_info w"
proof -
  define w5 where "w5 = before_loop env w f"
  define c0 where "c0 = [InitPmm (mmap f) (ucast (bootstrap_end f)),
          ContiguousAlloc ((entries f * 20) div 0x1000) (table_ptr env w f)]"
  have c5: "calls w5 = calls w @ c0" by (simp add: w5_def before_loop_def c0_def)
  have nf0: "\<not> list_ex failed_map c0" by (simp add: c0_def)
  have b5: "boot_info (boot_meta w5) = boot_info (boot_meta w)" "mb2_boot_info w5 = mb2_boot_info w"
    by (simp_all add: w5_def before_loop_def)
  obtain r5 where loop: "hhdm_loop env (mmap f) (table_ptr env w f) (nat (sint (entries f))) 0 w5 = Some r5"
    and r: "r = (case r5 of Inl e \<Rightarrow> Inl e
          | Inr w6 \<Rightarrow> Inr (0, w6\<lparr>boot_meta := (boot_meta w6)\<lparr>boot_info := ucast (MB2_BOOT_INFO env)\<rparr>\<rparr>))"
    using assms(1) unfolding bootstrap_unfold w5_def by (auto split: option.splits sum.splits)
  note hc = hhdm_loop_calls [OF loop]
  show ?thesis
  proof (cases r5)
    case (Inr w6)
    with hc obtain cs where "calls w6 = calls w5 @ cs" "\<not> list_ex failed_map cs" by auto
    then have "\<not> list_ex failed_map (drop (length (calls w)) (calls (final_world r)))"
      using nf0 unfolding r Inr by (simp add: final_world_def c5)
    with assms(2) show ?thesis by simp
  next
    case (Inl p)
    obtain e w' where p: "p = (e, w')" by (cases p)
    with hc Inl obtain cs c where h: "e = Hang" "calls w' = calls w5 @ cs @ [c]" "failed_map c"
      "\<not> list_ex failed_map cs" "boot_meta w' = boot_meta w5" "mb2_boot_info w' = mb2_boot_info w5"
      by auto
    have "r = Inl (Hang, w')" unfolding r Inl p using h(1) by simp
    moreover have "failed_map (last (calls w'))" using h(2,3) by simp
    moreover have "butlast (drop (length (calls w)) (calls w')) = c0 @ cs"
      using h(2) by (simp add: c5 butlast_append)
    moreover have "boot_info (boot_meta w') = boot_info (boot_meta w)" using h(5) b5 by simp
    moreover have "mb2_boot_info w' = mb2_boot_info w" using h(6) b5 by simp
    ultimately show ?thesis using nf0 h(4) by simp
  qed
qed

theorem failed_mapping_witness:
  "\<exists>w'. bootstrap (counting_env 1 0x200000) (boot_world mmap_stream) mmap_frame
          = Some (Inl (Hang, w')) \<and>
     list_ex failed_map (calls w') \<and> failed_map (last (calls w')) \<and>
     \<not> list_ex failed_map (butlast (calls w')) \<and>
     boot_info (boot_meta w') = 0"
proof -
  obtain w0 where b: "bootstrap (counting_env 1 0x200000) (boot_world mmap_stream) mmap_frame
      = Some (Inl (Hang, w0))"
    and c: "calls w0 = [InitPmm 0x10008 0x100000, ContiguousAlloc 0 0x200000,
          MapPage 0x1000 0xFFFFC00000100000 0x100000 1 0x1000,
          MapPage 0x1000 0xFFFFC00000101000 0x101000 1 0]"
    using mmap_bootstrap_hangs by blast
  have h: "list_ex failed_map (drop (length (calls (boot_world mmap_stream)))
      (calls (final_world (Inl (Hang, w0)))))"
    by (simp add: final_world_def boot_world_def c)
  from failed_mapping_halts [OF b h] have
    "failed_map (last (calls w0))"
    "\<not> list_ex failed_map (butlast (drop (length (calls (boot_world mmap_stream))) (calls w0)))"
    "boot_info (boot_meta w0) = boot_info (boot_meta (boot_world mmap_stream))"
    by auto
  then have "failed_map (last (calls w0))" "\<not> list_ex failed_map (butlast (calls w0))"
    "boot_info (boot_meta w0) = 0"
    by (simp_all add: boot_world_def zero_meta_def)
  moreover have "list_ex failed_map (calls w0)" by (simp add: c)
  ultimately show ?thesis using b by blast
qed

section \<open>The walk, record by record\<close>

lemma read_mb2i_unfold:
  "read_mb2i env w mb2i =
     (case walk (entry_world w mb2i) (entry_frame env w mb2i) of
        None \<Rightarrow> None
      | Some (Inl e) \<Rightarrow> Some (Inl e)
      | Some (Inr (w1, f1)) \<Rightarrow> bootstrap env w1 f1)"
  by (simp add: read_mb2i_def entry_world_def entry_frame_def)

lemmas walk_induct = walk.raw_induct [rotated 1, consumes 1, case_names step]

lemma case_mmap_frame:
  assumes "case_mmap w f = Inr (w', f')"
  shows "mem w' = mem w \<and> tag f' = tag f \<and> end_ptr f' = end_ptr f \<and> visited f' = visited f \<and>
    ext w' = ext w \<and> pml4 w' = pml4 w \<and> calls w' = calls w"
proof (cases "read_u32 (mem w) (tag f + 8) = 0")
  case True
  then show ?thesis using assms by (simp add: case_mmap_def)
next
  case False
  then show ?thesis using assms by (auto simp: case_mmap_def Let_def)
qed

lemma case_module_frame:
  assumes "case_module w f = (w', f')"
  shows "mem w' = mem w \<and> tag f' = tag f \<and> end_ptr f' = end_ptr f \<and> visited f' = visited f \<and>
    ext w' = ext w \<and> pml4 w' = pml4 w \<and> calls w' = calls w"
proof -
  have w: "w' = fst (case_module w f)" and f: "f' = snd (case_module w f)" using assms by simp_all
  show ?thesis unfolding w f by (simp add: case_module_def Let_def)
qed

lemma case_framebuffer_frame:
  assumes "case_framebuffer w f = (w', f')"
  shows "mem w' = mem w \<and> tag f' = tag f \<and> end_ptr f' = end_ptr f \<and> visited f' = visited f \<and>
    ext w' = ext w \<and> pml4 w' = pml4 w \<and> requests (calls w') = requests (calls w)"
proof -
  have w: "w' = fst (case_framebuffer w f)" and f: "f' = snd (case_framebuffer w f)"
    using assms by simp_all
  show ?thesis unfolding w f by (simp add: case_framebuffer_def Let_def requests_append)
qed

lemma case_acpi_frame:
  assumes "case_acpi w f = (w', f')"
  shows "mem w' = mem w \<and> tag f' = tag f \<and> end_ptr f' = end_ptr f \<and> visited f' = visited f \<and>
    ext w' = ext w \<and> pml4 w' = pml4 w \<and> calls w' = calls w"
  using assms by (auto simp: case_acpi_def)

lemma dispatch_cases:
  assumes "dispatch w f = r"
  obtains (mmap) "read_u32 (mem w) (tag f) = 6" "r = case_mmap w f"
  | (module) "read_u32 (mem w) (tag f) = 3" "r = Inr (case_module w f)"
  | (framebuffer) "read_u32 (mem w) (tag f) = 8" "r = Inr (case_framebuffer w f)"
  | (acpi) "read_u32 (mem w) (tag f) = 21 \<or> read_u32 (mem w) (tag f) = 15 \<or>
       read_u32 (mem w) (tag f) = 14" "r = Inr (case_acpi w f)"
  | (other) "read_u32 (mem w) (tag f) \<noteq> 6" "read_u32 (mem w) (tag f) \<noteq> 3"
      "read_u32 (mem w) (tag f) \<noteq> 8" "read_u32 (mem w) (tag f) \<noteq> 21"
      "read_u32 (mem w) (tag f) \<noteq> 15" "read_u32 (mem w) (tag f) \<noteq> 14" "r = Inr (w, f)"
proof -
  let ?t = "read_u32 (mem w) (tag f)"
  have r: "r = dispatch w f" using assms by simp
  consider "?t = 6" | "?t = 3" | "?t = 8" | "?t = 21 \<or> ?t = 15 \<or> ?t = 14"
    | "?t \<noteq> 6 \<and> ?t \<noteq> 3 \<and> ?t \<noteq> 8 \<and> ?t \<noteq> 21 \<and> ?t \<noteq> 15 \<and> ?t \<noteq> 14"
    by blast
  then show thesis
  proof cases
    case 1
    then show ?thesis using mmap r by (simp add: dispatch_def)
  next
    case 2
    then show ?thesis using module r by (simp add: dispatch_def)
  next
    case 3
    then show ?thesis using framebuffer r by (simp add: dispatch_def)
  next
    case 4
    have "r = Inr (case_acpi w f)" using 4 r by (auto simp: dispatch_def Let_def)
    then show ?thesis using acpi 4 by simp
  next
    case 5
    have "r = Inr (w, f)" using 5 r by (simp add: dispatch_def Let_def)
    then show ?thesis using other 5 by simp
  qed
qed

lemma dispatch_frame:
  assumes "dispatch w f = Inr (w', f')"
  shows "mem w' = mem w" "tag f' = tag f" "end_ptr f' = end_ptr f" "visited f' = visited f"
    "ext w' = ext w" "pml4 w' = pml4 w" "requests (calls w') = requests (calls w)"
proof -
  have "mem w' = mem w \<and> tag f' = tag f \<and> end_ptr f' = end_ptr f \<and> visited f' = visited f \<and>
    ext w' = ext w \<and> pml4 w' = pml4 w \<and> requests (calls w') = requests (calls w)"
    using assms
  proof (cases rule: dispatch_cases)
    case mmap
    then show ?thesis using case_mmap_frame [of w f w' f'] by simp
  next
    case module
    then show ?thesis using case_module_frame [of w f w' f'] by simp
  next
    case framebuffer
    then show ?thesis using case_framebuffer_frame [of w f w' f'] by simp
  next
    case acpi
    then show ?thesis using case_acpi_frame [of w f w' f'] by simp
  next
    case other
    then show ?thesis by simp
  qed
  then show "mem w' = mem w" "tag f' = tag f" "end_ptr f' = end_ptr f" "visited f' = visited f"
    "ext w' = ext w" "pml4 w' = pml4 w" "requests (calls w') = requests (calls w)"
    by simp_all
qed

text \<open>
  A relation that holds from a state to itself, and from a state to wherever the state after
  one more record is related to, holds from any state to the state the walk ends in.
\<close>

lemma walk_rel:
  assumes "walk w f = Some (Inr (w', f'))"
    and refl: "\<And>w f. R w f w f"
    and step: "\<And>w f w1 f1 w2 f2. read_u32 (mem w) (tag f) \<noteq> 0 \<Longrightarrow> tag f < end_ptr f \<Longrightarrow>
       dispatch w f = Inr (w1, f1) \<Longrightarrow> R w1 (advance w1 f1) w2 f2 \<Longrightarrow> R w f w2 f2"
  shows "R w f w' f'"
proof -
  have "\<forall>w' f'. r = Inr (w', f') \<longrightarrow> R w f w' f'" if "walk w f = Some r" for r
    using that
  proof (induction w f r rule: walk_induct)
    case (step walk w f r)
    show ?case
    proof (cases "read_u32 (mem w) (tag f) \<noteq> 0 \<and> tag f < end_ptr f")
      case False
      then have "r = Inr (w, f)" using step.hyps by auto
      then show ?thesis using refl by simp
    next
      case True
      then have eq: "(case dispatch w f of Inl e \<Rightarrow> Some (Inl e)
          | Inr (w', f') \<Rightarrow> walk w' (f'\<lparr>tag := tag f' + ALIGN (read_u32 (mem w') (tag f' + 4)) 8,
              visited := visited f' @ [tag f']\<rparr>)) = Some r"
        using step.hyps by simp
      show ?thesis
      proof (cases "dispatch w f")
        case (Inl e)
        then show ?thesis using eq by auto
      next
        case (Inr p)
        obtain w1 f1 where p: "p = (w1, f1)" by (cases p)
        have rec: "walk w1 (advance w1 f1) = Some r"
          using eq Inr p by (simp add: advance_def)
        show ?thesis
        proof (intro allI impI)
          fix w2 f2 assume r: "r = Inr (w2, f2)"
          have "R w1 (advance w1 f1) w2 f2" using step.IH [OF rec] r by simp
          then show "R w f w2 f2"
            using True Inr p by (intro assms(3) [of w f w1 f1]) simp_all
        qed
      qed
    qed
  qed
  then show ?thesis using assms(1) by simp
qed

lemma walk_frame:
  assumes "walk w f = Some (Inr (w', f'))"
  shows "mem w' = mem w \<and> end_ptr f' = end_ptr f \<and> ext w' = ext w \<and> pml4 w' = pml4 w \<and>
    (\<exists>ts. visited f' = visited f @ ts)"
proof (rule walk_rel [OF assms, where R = "\<lambda>w f w' f'. mem w' = mem w \<and> end_ptr f' = end_ptr f \<and>
    ext w' = ext w \<and> pml4 w' = pml4 w \<and> (\<exists>ts. visited f' = visited f @ ts)"])
  fix w :: "'a world" and f show "mem w = mem w \<and> end_ptr f = end_ptr f \<and> ext w = ext w \<and>
      pml4 w = pml4 w \<and> (\<exists>ts. visited f = visited f @ ts)" by simp
next
  fix w w1 w2 :: "'a world" and f f1 f2
  assume d: "dispatch w f = Inr (w1, f1)"
    and r: "mem w2 = mem w1 \<and> end_ptr f2 = end_ptr (advance w1 f1) \<and> ext w2 = ext w1 \<and>
      pml4 w2 = pml4 w1 \<and> (\<exists>ts. visited f2 = visited (advance w1 f1) @ ts)"
  note df = dispatch_frame [OF d]
  show "mem w2 = mem w \<and> end_ptr f2 = end_ptr f \<and> ext w2 = ext w \<and> pml4 w2 = pml4 w \<and>
      (\<exists>ts. visited f2 = visited f @ ts)"
    using r df by (auto simp: advance_def)
qed

text \<open>
  A quantity of the state that each record changes by \<open>g\<close>, whatever the position of the
  walk, changes over the walk by \<open>g\<close> folded over the records visited.
\<close>

lemma walk_fold:
  assumes "walk w f = Some (Inr (w', f'))"
    and step: "\<And>w f w1 f1. dispatch w f = Inr (w1, f1) \<Longrightarrow>
        x w1 (advance w1 f1) = g (mem w) (tag f) (x w f)"
  shows "x w' f' = fold (g (mem w)) (drop (length (visited f)) (visited f')) (x w f)"
proof -
  have "mem w' = mem w \<and> (\<exists>ts. visited f' = visited f @ ts \<and> x w' f' = fold (g (mem w)) ts (x w f))"
  proof (rule walk_rel [OF assms(1), where R = "\<lambda>w f w' f'. mem w' = mem w \<and>
      (\<exists>ts. visited f' = visited f @ ts \<and> x w' f' = fold (g (mem w)) ts (x w f))"])
    fix w :: "'a world" and f
    show "mem w = mem w \<and> (\<exists>ts. visited f = visited f @ ts \<and> x w f = fold (g (mem w)) ts (x w f))"
      by simp
  next
    fix w w1 w2 :: "'a world" and f f1 f2
    assume d: "dispatch w f = Inr (w1, f1)"
      and r: "mem w2 = mem w1 \<and> (\<exists>ts. visited f2 = visited (advance w1 f1) @ ts \<and>
          x w2 f2 = fold (g (mem w1)) ts (x w1 (advance w1 f1)))"
    note df = dispatch_frame [OF d]
    from r obtain ts where ts: "visited f2 = visited (advance w1 f1) @ ts"
      "x w2 f2 = fold (g (mem w1)) ts (x w1 (advance w1 f1))" by blast
    have v: "visited f2 = visited f @ (tag f # ts)"
      using ts(1) df by (simp add: advance_def)
    have xf: "x w2 f2 = fold (g (mem w)) (tag f # ts) (x w f)"
      using ts(2) step [OF d] df by simp
    have mm: "mem w2 = mem w" using r df by simp
    have "\<exists>ts. visited f2 = visited f @ ts \<and> x w2 f2 = fold (g (mem w)) ts (x w f)"
      by (rule exI [of _ "tag f # ts"]) (simp only: v xf simp_thms)
    then show "mem w2 = mem w \<and> (\<exists>ts. visited f2 = visited f @ ts \<and>
        x w2 f2 = fold (g (mem w)) ts (x w f))"
      using mm by (rule conjI [rotated])
  qed
  then show ?thesis by auto
qed

text \<open>On the streams described by \<open>records\<close> the walk returns, having visited just those records.\<close>

lemma dispatch_returns:
  assumes "read_u32 (mem w) (tag f) \<noteq> 6 \<or> read_u32 (mem w) (tag f + 8) \<noteq> 0"
  shows "\<exists>w1 f1. dispatch w f = Inr (w1, f1)"
proof (cases "read_u32 (mem w) (tag f) = 6")
  case True
  then have "read_u32 (mem w) (tag f + 8) \<noteq> 0" using assms by simp
  then show ?thesis using True by (simp add: dispatch_def case_mmap_def Let_def)
next
  case False
  obtain a b where "case_module w f = (a, b)" by (cases "case_module w f")
  moreover obtain c d where "case_framebuffer w f = (c, d)" by (cases "case_framebuffer w f")
  moreover obtain g h where "case_acpi w f = (g, h)" by (cases "case_acpi w f")
  ultimately show ?thesis using False by (simp add: dispatch_def Let_def)
qed

lemma walk_unfold:
  assumes "read_u32 (mem w) (tag f) \<noteq> 0" "tag f < end_ptr f" "dispatch w f = Inr (w1, f1)"
  shows "walk w f = walk w1 (advance w1 f1)"
  using walk_step [OF assms(1,2)] assms(3) by (simp add: advance_def)

lemma walk_returns:
  assumes "records (mem w) (end_ptr f) (tag f) ts" "divisible (mem w) ts"
  shows "\<exists>w' f'. walk w f = Some (Inr (w', f')) \<and> visited f' = visited f @ ts"
  using assms
proof (induction ts arbitrary: w f)
  case Nil
  then have "read_u32 (mem w) (tag f) = 0 \<or> \<not> tag f < end_ptr f" by auto
  then have "walk w f = Some (Inr (w, f))" using walk_stop walk_end by blast
  then show ?case by simp
next
  case (Cons x xs)
  have x: "x = tag f" and t: "read_u32 (mem w) (tag f) \<noteq> 0" and e: "tag f < end_ptr f"
    and r: "records (mem w) (end_ptr f) (tag f + ALIGN (read_u32 (mem w) (tag f + 4)) 8) xs"
    using Cons.prems(1) by simp_all
  have d: "read_u32 (mem w) (tag f) \<noteq> 6 \<or> read_u32 (mem w) (tag f + 8) \<noteq> 0"
    and ds: "divisible (mem w) xs"
    using Cons.prems(2) x by (simp_all add: divisible_def)
  from dispatch_returns [OF d] obtain w1 f1 where w1: "dispatch w f = Inr (w1, f1)" by blast
  note df = dispatch_frame [OF w1]
  have r1: "records (mem w1) (end_ptr (advance w1 f1)) (tag (advance w1 f1)) xs"
    using r df by (simp add: advance_def)
  have d1: "divisible (mem w1) xs" using ds df by simp
  from Cons.IH [OF r1 d1] obtain w' f' where
    k: "walk w1 (advance w1 f1) = Some (Inr (w', f'))" "visited f' = visited (advance w1 f1) @ xs"
    by blast
  have "walk w f = Some (Inr (w', f'))" using walk_unfold [OF t e w1] k(1) by simp
  moreover have "visited f' = visited f @ x # xs" using k(2) df x by (simp add: advance_def)
  ultimately show ?case by blast
qed

text \<open>The map requests made so far are not touched by the walk, which only adds calls.\<close>

lemma fold_same: "fold (\<lambda>t x. x) ts x = x"
  by (induction ts) simp_all

lemma walk_requests:
  assumes "walk w f = Some (Inr (w', f'))"
  shows "requests (calls w') = requests (calls w)"
proof -
  have "requests (calls w') =
      fold (\<lambda>t x. x) (drop (length (visited f)) (visited f')) (requests (calls w))"
    by (rule walk_fold [OF assms, where x = "\<lambda>w f. requests (calls w)" and g = "\<lambda>m t x. x"])
       (simp add: dispatch_frame)
  then show ?thesis by (simp only: fold_same)
qed

lemma walk_calls:
  assumes "walk w f = Some (Inr (w', f'))"
  shows "\<exists>cs. calls w' = calls w @ cs"
proof (rule walk_rel [OF assms, where R = "\<lambda>w f w' f'. \<exists>cs. calls w' = calls w @ cs"])
  fix w :: "'a world" and f :: frame
  show "\<exists>cs. calls w = calls w @ cs" by simp
next
  fix w w1 w2 :: "'a world" and f f1 f2 :: frame
  assume d: "dispatch w f = Inr (w1, f1)" and r: "\<exists>cs. calls w2 = calls w1 @ cs"
  have "\<exists>cs. calls w1 = calls w @ cs"
    using d
  proof (cases rule: dispatch_cases)
    case mmap
    then show ?thesis using case_mmap_frame [of w f w1 f1] by simp
  next
    case module
    then show ?thesis using case_module_frame [of w f w1 f1] by simp
  next
    case framebuffer
    then have "w1 = fst (case_framebuffer w f)" by (metis fst_conv sum.inject(2))
    then show ?thesis by (simp add: case_framebuffer_def Let_def)
  next
    case acpi
    then show ?thesis using case_acpi_frame [of w f w1 f1] by simp
  next
    case other
    then show ?thesis by simp
  qed
  then show "\<exists>cs. calls w2 = calls w @ cs" using r by auto
qed

text \<open>What a record does to \<^verbatim>\<open>mmap\<close> and \<^verbatim>\<open>entries\<close>.\<close>

lemma dispatch_mmap:
  assumes "dispatch w f = Inr (w1, f1)"
  shows "(mmap (advance w1 f1), entries (advance w1 f1)) =
     (if read_u32 (mem w) (tag f) = 6
      then (tag f, (read_u32 (mem w) (tag f + 4) - 16) div read_u32 (mem w) (tag f + 8))
      else (mmap f, entries f))"
  using assms
proof (cases rule: dispatch_cases)
  case mmap
  then have c: "case_mmap w f = Inr (w1, f1)" by simp
  have nz: "read_u32 (mem w) (tag f + 8) \<noteq> 0"
    using c by (auto simp: case_mmap_def Let_def split: if_splits)
  then have "f1 = f\<lparr>mmap := tag f,
      entries := (read_u32 (mem w) (tag f + 4) - 16) div read_u32 (mem w) (tag f + 8)\<rparr>"
    using c by (auto simp: case_mmap_def Let_def)
  then show ?thesis using mmap(1) by (simp add: advance_def)
next
  case module
  then have "f1 = snd (case_module w f)" by (metis snd_conv sum.inject(2))
  then show ?thesis using module(1) by (simp add: case_module_def Let_def advance_def)
next
  case framebuffer
  then have "f1 = snd (case_framebuffer w f)" by (metis snd_conv sum.inject(2))
  then show ?thesis using framebuffer(1) by (simp add: case_framebuffer_def Let_def advance_def)
next
  case acpi
  then have "f1 = snd (case_acpi w f)" by (metis snd_conv sum.inject(2))
  then show ?thesis using acpi(1) by (auto simp: case_acpi_def advance_def)
next
  case other
  then show ?thesis by (simp add: advance_def)
qed

lemma fold_unmatched:
  "list_all (\<lambda>t. \<not> P t) ts \<Longrightarrow> fold (\<lambda>t x. if P t then F t else x) ts x = x"
  by (induction ts) simp_all

lemma walk_without_mmap:
  assumes "walk w f = Some (Inr (w', f'))" "visited f' = visited f @ ts"
    "list_all (\<lambda>t. read_u32 (mem w) t \<noteq> 6) ts"
  shows "mmap f' = mmap f \<and> entries f' = entries f"
proof -
  have d: "drop (length (visited f)) (visited f') = ts" using assms(2) by simp
  have "(mmap f', entries f') =
      fold (\<lambda>t x. if read_u32 (mem w) t = 6
         then (t, (read_u32 (mem w) (t + 4) - 16) div read_u32 (mem w) (t + 8)) else x)
        (drop (length (visited f)) (visited f')) (mmap f, entries f)"
  proof (rule walk_fold [OF assms(1), where x = "\<lambda>w f. (mmap f, entries f)"
        and g = "\<lambda>m t x. if read_u32 m t = 6
          then (t, (read_u32 m (t + 4) - 16) div read_u32 m (t + 8)) else x"])
    fix w w1 :: "'a world" and f f1 :: frame
    assume "dispatch w f = Inr (w1, f1)"
    from dispatch_mmap [OF this]
    show "(mmap (advance w1 f1), entries (advance w1 f1)) =
      (if read_u32 (mem w) (tag f) = 6
       then (tag f, (read_u32 (mem w) (tag f + 4) - 16) div read_u32 (mem w) (tag f + 8))
       else (mmap f, entries f))" .
  qed
  also have "\<dots> = (mmap f, entries f)"
    unfolding d using assms(3) by (intro fold_unmatched) simp
  finally show ?thesis by simp
qed

lemma unmapped_divisible:
  "list_all (\<lambda>t. read_u32 m t \<noteq> 6) ts \<Longrightarrow> divisible m ts"
  by (induction ts) (simp_all add: divisible_def)

subsection \<open>The highest address\<close>

lemma scan_mmap_fold:
  "scan_mmap m mp n i h =
     fold max (map (\<lambda>k. entry_addr (read_entry m mp k) + entry_len (read_entry m mp k)) [i..<n]) h"
proof (induction m mp n i h rule: scan_mmap.induct)
  case (1 m mp n i h)
  show ?case
  proof (cases "i < n")
    case False
    then show ?thesis by (simp add: scan_mmap_done)
  next
    case True
    let ?e = "entry_addr (read_entry m mp i) + entry_len (read_entry m mp i)"
    have m: "(if h < ?e then ?e else h) = max ?e h" by (auto simp: max_def)
    have "scan_mmap m mp n i h = scan_mmap m mp n (Suc i) (max ?e h)"
      using scan_mmap_step [OF True, of m mp h] m by simp
    also have "\<dots> = fold max (map (\<lambda>k. entry_addr (read_entry m mp k) + entry_len (read_entry m mp k))
        [Suc i..<n]) (max ?e h)"
      using "1.IH" [OF True refl] m by simp
    also have "\<dots> = fold max (map (\<lambda>k. entry_addr (read_entry m mp k) + entry_len (read_entry m mp k))
        [i..<n]) h"
      using True by (simp add: upt_conv_Cons)
    finally show ?thesis .
  qed
qed

lemma fold_max_ge: "(h :: u64) \<le> fold max xs h"
proof (induction xs arbitrary: h)
  case Nil
  show ?case by simp
next
  case (Cons x xs)
  have "h \<le> max x h" by simp
  also have "\<dots> \<le> fold max xs (max x h)" by (rule Cons.IH)
  finally show ?case by simp
qed


lemma dispatch_highest:
  assumes "dispatch w f = Inr (w', f')"
  shows "highest_address (boot_meta w') =
     fold max (tag_ends (mem w) (tag f)) (highest_address (boot_meta w))"
  using assms
proof (cases rule: dispatch_cases)
  case mmap
  then have c: "case_mmap w f = Inr (w', f')" by simp
  have nz: "read_u32 (mem w) (tag f + 8) \<noteq> 0"
    using c by (auto simp: case_mmap_def Let_def split: if_splits)
  then have "highest_address (boot_meta w') =
      scan_mmap (mem w) (tag f)
        (nat (sint ((read_u32 (mem w) (tag f + 4) - 16) div read_u32 (mem w) (tag f + 8)))) 0
        (highest_address (boot_meta w))"
    using c by (auto simp: case_mmap_def Let_def)
  then show ?thesis using mmap(1) by (simp add: scan_mmap_fold tag_ends_def)
next
  case module
  then have "boot_meta w' = boot_meta (fst (case_module w f))" by (metis fst_conv sum.inject(2))
  then have "highest_address (boot_meta w') = highest_address (boot_meta w)"
    by (simp add: case_module_def Let_def)
  then show ?thesis using module(1) by (simp add: tag_ends_def)
next
  case framebuffer
  then have "boot_meta w' = boot_meta (fst (case_framebuffer w f))" by (metis fst_conv sum.inject(2))
  then have "highest_address (boot_meta w') = highest_address (boot_meta w)"
    by (simp add: case_framebuffer_def Let_def)
  then show ?thesis using framebuffer(1) by (simp add: tag_ends_def)
next
  case acpi
  then have "boot_meta w' = boot_meta (fst (case_acpi w f))" by (metis fst_conv sum.inject(2))
  then have "highest_address (boot_meta w') = highest_address (boot_meta w)"
    by (simp add: case_acpi_def)
  then show ?thesis using acpi(1) by (auto simp: tag_ends_def)
next
  case other
  then show ?thesis by (simp add: tag_ends_def)
qed



lemma dispatch_monotone:
  assumes "dispatch w f = Inr (w', f')"
  shows "highest_address (boot_meta w) \<le> highest_address (boot_meta w')"
  unfolding dispatch_highest [OF assms] by (rule fold_max_ge)






subsection \<open>The end of the stream\<close>

text \<open>
  C1. The claim has the walk stop where the position reaches the end bound derived from
  the declared length of the stream, and never read past it. Line 52 adds \<^verbatim>\<open>tag->type\<close>,
  the declared length, to a \<^verbatim>\<open>struct multiboot_tag *\<close>, so \<^verbatim>\<open>end\<close> lies 8 times the length
  past the start; and line 61 reads \<^verbatim>\<open>tag->type\<close> before it compares \<^verbatim>\<open>tag\<close> with \<^verbatim>\<open>end\<close>.
  \<open>short_stream\<close> declares 24 bytes and \<^verbatim>\<open>end\<close> is \<open>0x100C0\<close>: the walk runs on the record at
  \<open>0x10008\<close> and then on the words at \<open>0x10018\<close>, the first address after the stream, takes
  them for an \<^verbatim>\<open>ACPI_OLD\<close> record and sets \<^verbatim>\<open>rsdp\<close> from them.
\<close>

theorem walk_passes_declared_end:
  "read_u32 short_stream 0x10000 = 24 \<and>
   (\<exists>w' f'. walk (entry_world (boot_world short_stream) 0x10000)
        (entry_frame (counting_env 0 0x200000) (boot_world short_stream) 0x10000)
        = Some (Inr (w', f')) \<and>
      end_ptr f' = 0x10000 + 8 * 24 \<and> visited f' = [0x10008, 0x10000 + 24] \<and>
      rsdp (boot_meta w') = 0x10020) \<and>
   (\<exists>w'. read_mb2i (counting_env 0 0x200000) (boot_world short_stream) 0x10000
        = Some (Inr (0, w')) \<and> rsdp (boot_meta w') = 0x10020)"
proof -
  have a: "read_u32 short_stream 0x10000 = 24"
    by (simp add: short_stream_def read_u32_mem_of)
  have b: "\<exists>w' f'. walk (entry_world (boot_world short_stream) 0x10000)
        (entry_frame (counting_env 0 0x200000) (boot_world short_stream) 0x10000)
        = Some (Inr (w', f')) \<and>
      end_ptr f' = 0x10000 + 8 * 24 \<and> visited f' = [0x10008, 0x10000 + 24] \<and>
      rsdp (boot_meta w') = 0x10020"
    by (simp add: entry_world_def entry_frame_def short_stream_def counting_env_def run_walk)
  have c: "\<exists>w'. read_mb2i (counting_env 0 0x200000) (boot_world short_stream) 0x10000
        = Some (Inr (0, w')) \<and> rsdp (boot_meta w') = 0x10020"
    by (simp add: read_mb2i_def short_stream_def run_walk run_bootstrap)
  show ?thesis using a b c by blast
qed

subsection \<open>The modules\<close>

lemma names_differ:
  "strcmp_eq m s ''arctan-module.kernel.elf'' \<Longrightarrow> \<not> strcmp_eq m s ''arctan-module.initramfs.cpio''"
  by simp

lemma two_kernel_first: "kernel_module two_kernel_stream 0x10008"
  by (simp add: kernel_module_def two_kernel_stream_def read_u32_mem_of mem_of_at)

lemma two_kernel_second: "kernel_module two_kernel_stream 0x10038"
  by (simp add: kernel_module_def two_kernel_stream_def read_u32_mem_of mem_of_at)

lemma modules_first: "kernel_module modules_stream 0x10008"
  by (simp add: kernel_module_def modules_stream_def read_u32_mem_of mem_of_at)

lemma modules_second: "initramfs_module modules_stream 0x10038"
  by (simp add: initramfs_module_def modules_stream_def read_u32_mem_of mem_of_at)

lemma fold_last_match:
  "fold (\<lambda>t x. if P t then F t else x) ts x =
     (if filter P ts = [] then x else F (last (filter P ts)))"
  by (induction ts arbitrary: x) auto

lemma dispatch_kernel:
  assumes "dispatch w f = Inr (w1, f1)"
  shows "kernel_elf (boot_meta w1) =
     (if kernel_module (mem w) (tag f) then ucast (read_u32 (mem w) (tag f + 8))
      else kernel_elf (boot_meta w))"
  using assms
proof (cases rule: dispatch_cases)
  case mmap
  then have c: "case_mmap w f = Inr (w1, f1)" by simp
  have nz: "read_u32 (mem w) (tag f + 8) \<noteq> 0"
    using c by (auto simp: case_mmap_def Let_def split: if_splits)
  then have "kernel_elf (boot_meta w1) = kernel_elf (boot_meta w)"
    using c by (auto simp: case_mmap_def Let_def)
  then show ?thesis using mmap(1) by (simp add: kernel_module_def)
next
  case module
  then have "w1 = fst (case_module w f)" by (metis fst_conv sum.inject(2))
  then show ?thesis using module(1) by (simp add: case_module_def Let_def kernel_module_def)
next
  case framebuffer
  then have "w1 = fst (case_framebuffer w f)" by (metis fst_conv sum.inject(2))
  then show ?thesis using framebuffer(1)
    by (simp add: case_framebuffer_def Let_def kernel_module_def)
next
  case acpi
  then have "w1 = fst (case_acpi w f)" by (metis fst_conv sum.inject(2))
  then show ?thesis using acpi(1) by (auto simp: case_acpi_def kernel_module_def)
next
  case other
  then show ?thesis by (simp add: kernel_module_def)
qed

lemma dispatch_initramfs:
  assumes "dispatch w f = Inr (w1, f1)"
  shows "(initramfs (boot_meta w1), initramfs_size (boot_meta w1)) =
     (if initramfs_module (mem w) (tag f)
      then (ucast (read_u32 (mem w) (tag f + 8)),
            read_u32 (mem w) (tag f + 12) - read_u32 (mem w) (tag f + 8))
      else (initramfs (boot_meta w), initramfs_size (boot_meta w)))"
  using assms
proof (cases rule: dispatch_cases)
  case mmap
  then have c: "case_mmap w f = Inr (w1, f1)" by simp
  have nz: "read_u32 (mem w) (tag f + 8) \<noteq> 0"
    using c by (auto simp: case_mmap_def Let_def split: if_splits)
  then have "initramfs (boot_meta w1) = initramfs (boot_meta w) \<and>
      initramfs_size (boot_meta w1) = initramfs_size (boot_meta w)"
    using c by (auto simp: case_mmap_def Let_def)
  then show ?thesis using mmap(1) by (simp add: initramfs_module_def)
next
  case module
  then have w1: "w1 = fst (case_module w f)" by (metis fst_conv sum.inject(2))
  show ?thesis
  proof (cases "strcmp_eq (mem w) (tag f + 16) ''arctan-module.kernel.elf''")
    case True
    note names_differ [OF True]
    then show ?thesis using True module(1) unfolding w1
      by (simp add: case_module_def Let_def initramfs_module_def del: strcmp_eq.simps)
  next
    case False
    then show ?thesis using module(1) unfolding w1
      by (simp add: case_module_def Let_def initramfs_module_def del: strcmp_eq.simps)
  qed
next
  case framebuffer
  then have "w1 = fst (case_framebuffer w f)" by (metis fst_conv sum.inject(2))
  then show ?thesis using framebuffer(1)
    by (simp add: case_framebuffer_def Let_def initramfs_module_def)
next
  case acpi
  then have "w1 = fst (case_acpi w f)" by (metis fst_conv sum.inject(2))
  then show ?thesis using acpi(1) by (auto simp: case_acpi_def initramfs_module_def)
next
  case other
  then show ?thesis by (simp add: initramfs_module_def)
qed

lemma walk_kernel:
  assumes "walk w f = Some (Inr (w', f'))" "visited f' = visited f @ ts"
  shows "kernel_elf (boot_meta w') =
     (if filter (kernel_module (mem w)) ts = [] then kernel_elf (boot_meta w)
      else ucast (read_u32 (mem w) (last (filter (kernel_module (mem w)) ts) + 8)))"
proof -
  have d: "drop (length (visited f)) (visited f') = ts" using assms(2) by simp
  have "kernel_elf (boot_meta w') =
      fold (\<lambda>t x. if kernel_module (mem w) t then ucast (read_u32 (mem w) (t + 8)) else x)
        (drop (length (visited f)) (visited f')) (kernel_elf (boot_meta w))"
    by (rule walk_fold [OF assms(1), where x = "\<lambda>w f. kernel_elf (boot_meta w)"
          and g = "\<lambda>m t x. if kernel_module m t then ucast (read_u32 m (t + 8)) else x"])
       (simp add: dispatch_kernel advance_def)
  then show ?thesis unfolding d by (simp only: fold_last_match)
qed

lemma walk_initramfs:
  assumes "walk w f = Some (Inr (w', f'))" "visited f' = visited f @ ts"
  shows "(initramfs (boot_meta w'), initramfs_size (boot_meta w')) =
     (if filter (initramfs_module (mem w)) ts = []
      then (initramfs (boot_meta w), initramfs_size (boot_meta w))
      else (ucast (read_u32 (mem w) (last (filter (initramfs_module (mem w)) ts) + 8)),
            read_u32 (mem w) (last (filter (initramfs_module (mem w)) ts) + 12) -
            read_u32 (mem w) (last (filter (initramfs_module (mem w)) ts) + 8)))"
proof -
  have d: "drop (length (visited f)) (visited f') = ts" using assms(2) by simp
  have "(initramfs (boot_meta w'), initramfs_size (boot_meta w')) =
      fold (\<lambda>t x. if initramfs_module (mem w) t
          then (ucast (read_u32 (mem w) (t + 8)), read_u32 (mem w) (t + 12) - read_u32 (mem w) (t + 8))
          else x)
        (drop (length (visited f)) (visited f'))
        (initramfs (boot_meta w), initramfs_size (boot_meta w))"
    by (rule walk_fold [OF assms(1),
          where x = "\<lambda>w f. (initramfs (boot_meta w), initramfs_size (boot_meta w))"
          and g = "\<lambda>m t x. if initramfs_module m t
            then (ucast (read_u32 m (t + 8)), read_u32 m (t + 12) - read_u32 m (t + 8)) else x"])
       (simp add: dispatch_initramfs advance_def)
  then show ?thesis unfolding d by (simp only: fold_last_match)
qed

lemma modules_records:
  "records (mem (entry_world (boot_world modules_stream) 0x10000))
     (end_ptr (entry_frame env (boot_world modules_stream) 0x10000))
     (tag (entry_frame env (boot_world modules_stream) 0x10000)) [0x10008, 0x10038]"
  by (simp add: entry_world_def entry_frame_def boot_world_def modules_stream_def read_u32_mem_of
      ALIGN_def)

lemma modules_divisible:
  "divisible (mem (entry_world (boot_world modules_stream) 0x10000)) [0x10008, 0x10038]"
  by (simp add: divisible_def entry_world_def boot_world_def modules_stream_def read_u32_mem_of)

lemma modules_kernels:
  "filter (kernel_module (mem (entry_world (boot_world modules_stream) 0x10000)))
     [0x10008, 0x10038] = [0x10008]"
  by (simp add: entry_world_def boot_world_def kernel_module_def modules_stream_def
      read_u32_mem_of mem_of_at)

lemma modules_initramfs:
  "filter (initramfs_module (mem (entry_world (boot_world modules_stream) 0x10000)))
     [0x10008, 0x10038] = [0x10038]"
  by (simp add: entry_world_def boot_world_def initramfs_module_def modules_stream_def
      read_u32_mem_of mem_of_at)

text \<open>
  C5. On every stream on which the walk comes to an end, and that holds no \<^verbatim>\<open>MMAP\<close>
  record with a zero \<^verbatim>\<open>entry_size\<close>, the walk returns, and then \<^verbatim>\<open>kernel_elf\<close> is the
  \<^verbatim>\<open>mod_start\<close> of the last record visited that is a \<^verbatim>\<open>MODULE\<close> record named exactly
  \<^verbatim>\<open>arctan-module.kernel.elf\<close>, and is as it was if there is none; \<^verbatim>\<open>initramfs\<close> and
  \<^verbatim>\<open>initramfs_size\<close> are the \<^verbatim>\<open>mod_start\<close> and the 32-bit difference
  \<^verbatim>\<open>mod_end - mod_start\<close> of the last one named exactly \<^verbatim>\<open>arctan-module.initramfs.cpio\<close>,
  and are as they were if there is none. The last match wins, not the first.
\<close>

theorem last_matching_module_wins:
  assumes "records (mem w) (end_ptr f) (tag f) ts" "divisible (mem w) ts"
  shows "\<exists>w' f'. walk w f = Some (Inr (w', f')) \<and> visited f' = visited f @ ts \<and>
     kernel_elf (boot_meta w') =
       (if filter (kernel_module (mem w)) ts = [] then kernel_elf (boot_meta w)
        else ucast (read_u32 (mem w) (last (filter (kernel_module (mem w)) ts) + 8))) \<and>
     (initramfs (boot_meta w'), initramfs_size (boot_meta w')) =
       (if filter (initramfs_module (mem w)) ts = []
        then (initramfs (boot_meta w), initramfs_size (boot_meta w))
        else (ucast (read_u32 (mem w) (last (filter (initramfs_module (mem w)) ts) + 8)),
              read_u32 (mem w) (last (filter (initramfs_module (mem w)) ts) + 12) -
              read_u32 (mem w) (last (filter (initramfs_module (mem w)) ts) + 8)))"
proof -
  from walk_returns [OF assms] obtain w' f' where
    r: "walk w f = Some (Inr (w', f'))" and v: "visited f' = visited f @ ts" by blast
  show ?thesis using r v walk_kernel [OF r v] walk_initramfs [OF r v] by blast
qed

text \<open>On \<open>modules_stream\<close>.\<close>

theorem last_matching_module_witness:
  "\<exists>w' f'. walk (entry_world (boot_world modules_stream) 0x10000)
       (entry_frame (counting_env 0 0x200000) (boot_world modules_stream) 0x10000)
       = Some (Inr (w', f')) \<and>
     visited f' = [0x10008, 0x10038] \<and> kernel_elf (boot_meta w') = 0x200000 \<and>
     initramfs (boot_meta w') = 0x300000 \<and> initramfs_size (boot_meta w') = 0x40000"
proof -
  let ?w = "entry_world (boot_world modules_stream) 0x10000"
  let ?f = "entry_frame (counting_env 0 0x200000) (boot_world modules_stream) 0x10000"
  from last_matching_module_wins [OF modules_records modules_divisible]
  obtain w' f' where r: "walk ?w ?f = Some (Inr (w', f'))"
    and v: "visited f' = visited ?f @ [0x10008, 0x10038]"
    and k: "kernel_elf (boot_meta w') =
       (if filter (kernel_module (mem ?w)) [0x10008, 0x10038] = [] then kernel_elf (boot_meta ?w)
        else ucast (read_u32 (mem ?w) (last (filter (kernel_module (mem ?w)) [0x10008, 0x10038]) + 8)))"
    and i: "(initramfs (boot_meta w'), initramfs_size (boot_meta w')) =
       (if filter (initramfs_module (mem ?w)) [0x10008, 0x10038] = []
        then (initramfs (boot_meta ?w), initramfs_size (boot_meta ?w))
        else (ucast (read_u32 (mem ?w) (last (filter (initramfs_module (mem ?w)) [0x10008, 0x10038]) + 8)),
              read_u32 (mem ?w) (last (filter (initramfs_module (mem ?w)) [0x10008, 0x10038]) + 12) -
              read_u32 (mem ?w) (last (filter (initramfs_module (mem ?w)) [0x10008, 0x10038]) + 8)))"
    by blast
  have v': "visited f' = [0x10008, 0x10038]" using v by (simp add: entry_frame_def)
  have k': "kernel_elf (boot_meta w') = 0x200000"
    using k unfolding modules_kernels
    by (simp add: entry_world_def boot_world_def modules_stream_def read_u32_mem_of)
  have i': "initramfs (boot_meta w') = 0x300000 \<and> initramfs_size (boot_meta w') = 0x40000"
    using i unfolding modules_initramfs
    by (simp add: entry_world_def boot_world_def modules_stream_def read_u32_mem_of)
  show ?thesis using r v' k' i' by blast
qed

text \<open>
  On \<open>two_kernel_stream\<close> both records match the kernel's name, and after \<^verbatim>\<open>read_mb2i\<close>
  has returned \<^verbatim>\<open>kernel_elf\<close> is the base of the second, not of the first.
\<close>

theorem second_kernel_module_wins:
  "kernel_module two_kernel_stream 0x10008 \<and> kernel_module two_kernel_stream 0x10038 \<and>
   read_u32 two_kernel_stream (0x10008 + 8) = 0x200000 \<and>
   read_u32 two_kernel_stream (0x10038 + 8) = 0x300000 \<and>
   (\<exists>w'. read_mb2i (counting_env 0 0x200000) (boot_world two_kernel_stream) 0x10000
       = Some (Inr (0, w')) \<and> kernel_elf (boot_meta w') = 0x300000)"
proof -
  have r: "\<exists>w'. read_mb2i (counting_env 0 0x200000) (boot_world two_kernel_stream) 0x10000
       = Some (Inr (0, w')) \<and> kernel_elf (boot_meta w') = 0x300000"
    by (simp add: read_mb2i_def two_kernel_stream_def run_walk run_bootstrap mem_of_at)
  have b: "read_u32 two_kernel_stream (0x10008 + 8) = 0x200000"
    "read_u32 two_kernel_stream (0x10038 + 8) = 0x300000"
    by (simp_all add: two_kernel_stream_def read_u32_mem_of)
  show ?thesis using r b two_kernel_first two_kernel_second by blast
qed

subsection \<open>The number of entries\<close>







subsection \<open>A stream without a memory map\<close>

lemma bootstrap_empty:
  assumes "entries f = 0"
  shows "\<exists>w' p. bootstrap env w f = Some (Inr (0, w')) \<and>
     calls w' = calls w @ [InitPmm (mmap f) (ucast (bootstrap_end f)), ContiguousAlloc 0 p] \<and>
     arc_mmap_len (boot_meta w') = 0 \<and> hhdm_vaddr (boot_meta w') = 0xFFFFC00000000000 \<and>
     boot_info (boot_meta w') = ucast (MB2_BOOT_INFO env) \<and> mem w' = mem w \<and> pml4 w' = pml4 w"
  using assms by (simp add: bootstrap_def Let_def hhdm_loop_done memset_none)

lemma load_base_records:
  "records (mem (boot_world load_base_stream))
     (end_ptr (entry_frame env (boot_world load_base_stream) 0x10000))
     (tag (entry_frame env (boot_world load_base_stream) 0x10000)) [0x10008]"
  by (simp add: entry_frame_def boot_world_def load_base_stream_def read_u32_mem_of ALIGN_def)

lemma load_base_types:
  "list_all (\<lambda>t. read_u32 (mem (boot_world load_base_stream)) t \<noteq> 6) [0x10008]"
  by (simp add: boot_world_def load_base_stream_def read_u32_mem_of)

text \<open>
  C10. On every stream on which the walk comes to an end and which holds no \<^verbatim>\<open>MMAP\<close>
  record, \<^verbatim>\<open>read_mb2i\<close> returns 0. The calls it added end with \<^verbatim>\<open>init_pmm\<close>, given a null
  \<^verbatim>\<open>mmap\<close>, and the allocator's call for 0 pages; no call before them is a map request, so no
  page was mapped and \<^verbatim>\<open>pml4\<close> is as it was; \<^verbatim>\<open>arc_mmap_len\<close> is 0, and \<^verbatim>\<open>boot_info\<close> is
  published as after any other run.
\<close>

theorem no_memory_map_still_returns:
  assumes "records (mem w) (end_ptr (entry_frame env w mb2i)) (tag (entry_frame env w mb2i)) ts"
    "list_all (\<lambda>t. read_u32 (mem w) t \<noteq> 6) ts"
  shows "\<exists>w' cs be p. read_mb2i env w mb2i = Some (Inr (0, w')) \<and>
     calls w' = calls w @ cs @ [InitPmm 0 be, ContiguousAlloc 0 p] \<and> requests cs = [] \<and>
     arc_mmap_len (boot_meta w') = 0 \<and> requests (calls w') = requests (calls w) \<and>
     pml4 w' = pml4 w \<and> boot_info (boot_meta w') = ucast (MB2_BOOT_INFO env)"
proof -
  let ?w0 = "entry_world w mb2i" and ?f0 = "entry_frame env w mb2i"
  have m0: "mem ?w0 = mem w" by (simp add: entry_world_def)
  have c0: "calls ?w0 = calls w" by (simp add: entry_world_def)
  have p0: "pml4 ?w0 = pml4 w" by (simp add: entry_world_def)
  have r: "records (mem ?w0) (end_ptr ?f0) (tag ?f0) ts" using assms(1) m0 by simp
  have d: "divisible (mem ?w0) ts" using unmapped_divisible [OF assms(2)] m0 by simp
  from walk_returns [OF r d] obtain w1 f1 where
    k: "walk ?w0 ?f0 = Some (Inr (w1, f1))" and v: "visited f1 = visited ?f0 @ ts" by blast
  have t: "list_all (\<lambda>t. read_u32 (mem ?w0) t \<noteq> 6) ts" using assms(2) m0 by simp
  from walk_without_mmap [OF k v t] have mf: "mmap f1 = 0" and ef: "entries f1 = 0"
    by (simp_all add: entry_frame_def)
  from walk_calls [OF k] obtain cs where cs: "calls w1 = calls w @ cs" using c0 by auto
  have rq: "requests (calls w1) = requests (calls w)" using walk_requests [OF k] c0 by simp
  then have rc: "requests cs = []" using cs by (simp add: requests_append)
  have pm: "pml4 w1 = pml4 w" using walk_frame [OF k] p0 by simp
  from bootstrap_empty [OF ef, of env w1] obtain w' p where
    b: "bootstrap env w1 f1 = Some (Inr (0, w'))"
    and c: "calls w' = calls w1 @ [InitPmm (mmap f1) (ucast (bootstrap_end f1)), ContiguousAlloc 0 p]"
    and l: "arc_mmap_len (boot_meta w') = 0"
    and bi: "boot_info (boot_meta w') = ucast (MB2_BOOT_INFO env)"
    and pw: "pml4 w' = pml4 w1"
    by blast
  have run: "read_mb2i env w mb2i = Some (Inr (0, w'))"
    unfolding read_mb2i_unfold using k b by simp
  have c': "calls w' = calls w @ cs @ [InitPmm 0 (ucast (bootstrap_end f1)), ContiguousAlloc 0 p]"
    using c cs mf by simp
  have rq': "requests (calls w') = requests (calls w)"
    unfolding c' using rc by (simp add: requests_append)
  have pf: "pml4 w' = pml4 w" using pw pm by simp
  show ?thesis using run c' rc l rq' pf bi by blast
qed

text \<open>On \<open>load_base_stream\<close>.\<close>

theorem no_memory_map_witness:
  "\<exists>w' cs be p. read_mb2i (counting_env 0 0x200000) (boot_world load_base_stream) 0x10000
       = Some (Inr (0, w')) \<and>
     calls w' = cs @ [InitPmm 0 be, ContiguousAlloc 0 p] \<and> requests cs = [] \<and>
     arc_mmap_len (boot_meta w') = 0 \<and> requests (calls w') = [] \<and> pml4 w' = 0x1000 \<and>
     boot_info (boot_meta w') = 0x9000"
proof -
  from no_memory_map_still_returns [OF load_base_records load_base_types,
      of "counting_env 0 0x200000"]
  obtain w' cs be p where
    "read_mb2i (counting_env 0 0x200000) (boot_world load_base_stream) 0x10000 = Some (Inr (0, w'))"
    "calls w' = calls (boot_world load_base_stream) @ cs @ [InitPmm 0 be, ContiguousAlloc 0 p]"
    "requests cs = []" "arc_mmap_len (boot_meta w') = 0"
    "requests (calls w') = requests (calls (boot_world load_base_stream))"
    "pml4 w' = pml4 (boot_world load_base_stream)"
    "boot_info (boot_meta w') = ucast (MB2_BOOT_INFO (counting_env 0 0x200000))"
    by blast
  then have "read_mb2i (counting_env 0 0x200000) (boot_world load_base_stream) 0x10000
       = Some (Inr (0, w')) \<and>
     calls w' = cs @ [InitPmm 0 be, ContiguousAlloc 0 p] \<and> requests cs = [] \<and>
     arc_mmap_len (boot_meta w') = 0 \<and> requests (calls w') = [] \<and> pml4 w' = 0x1000 \<and>
     boot_info (boot_meta w') = 0x9000"
    by (simp add: boot_world_def counting_env_def)
  then show ?thesis by blast
qed

subsection \<open>The table's allocation\<close>

lemma mmap_walk:
  "walk (entry_world (boot_world mmap_stream) 0x10000)
     (entry_frame (counting_env k tbl) (boot_world mmap_stream) 0x10000)
   = Some (Inr ((boot_world mmap_stream)
        \<lparr>boot_meta := zero_meta\<lparr>highest_address := 0x102800\<rparr>,
         mb2_boot_info := \<lparr>mbi_phys = 0x10000, fb = 0\<rparr>\<rparr>, mmap_frame))"
  by (simp add: entry_world_def entry_frame_def mmap_stream_def mmap_frame_def counting_env_def
      run_walk)

lemma null_table_bootstrap:
  "\<exists>w'. bootstrap (counting_env 9 0)
      ((boot_world mmap_stream)
        \<lparr>boot_meta := zero_meta\<lparr>highest_address := 0x102800\<rparr>,
         mb2_boot_info := \<lparr>mbi_phys = 0x10000, fb = 0\<rparr>\<rparr>) mmap_frame
     = Some (Inr (0, w')) \<and>
     calls w' =
       [InitPmm 0x10008 0x100000, ContiguousAlloc 0 0,
        MapPage 0x1000 0xFFFFC00000100000 0x100000 1 0x1000,
        MapPage 0x1000 0xFFFFC00000101000 0x101000 1 0x1000,
        MapPage 0x1000 0xFFFFC00000102000 0x102000 1 0x1000,
        MapPage 0x1000 0xFFFFC00000000000 0 1 0x1000] \<and>
     arc_mmap (boot_meta w') = 0 \<and> arc_mmap_len (boot_meta w') = 2 \<and>
     boot_info (boot_meta w') = 0x9000"
  by (simp add: run_loops mmap_stream_def mmap_frame_def)

text \<open>
  C6. The claim has the table's size rounded up to whole pages and a failed allocation
  halt the system. Line 169 divides by \<open>0x1000\<close> and so rounds down, and nothing tests the
  pointer line 170 receives, whereas the result of \<^verbatim>\<open>map_page\<close> is tested at line 193. On
  \<open>mmap_stream\<close>, whose two entries need 40 bytes, with an allocator that returns null:
  0 pages are requested, the run goes on, writes the table at address 0, maps the four
  pages and returns 0 with \<^verbatim>\<open>arc_mmap\<close> null and \<^verbatim>\<open>boot_info\<close> published.
\<close>

theorem null_table_is_not_fatal:
  "\<exists>w'. read_mb2i (counting_env 9 0) (boot_world mmap_stream) 0x10000 = Some (Inr (0, w')) \<and>
     calls w' =
       [InitPmm 0x10008 0x100000, ContiguousAlloc 0 0,
        MapPage 0x1000 0xFFFFC00000100000 0x100000 1 0x1000,
        MapPage 0x1000 0xFFFFC00000101000 0x101000 1 0x1000,
        MapPage 0x1000 0xFFFFC00000102000 0x102000 1 0x1000,
        MapPage 0x1000 0xFFFFC00000000000 0 1 0x1000] \<and>
     arc_mmap (boot_meta w') = 0 \<and> arc_mmap_len (boot_meta w') = 2 \<and>
     boot_info (boot_meta w') = 0x9000"
  unfolding read_mb2i_unfold mmap_walk using null_table_bootstrap by simp

section \<open>The ACPI root pointer\<close>

text \<open>
  C9. The claim has \<^verbatim>\<open>rsdp\<close> written exactly when an \<^verbatim>\<open>ACPI_NEW\<close> or \<^verbatim>\<open>ACPI_OLD\<close> record
  is met, and by no other kind of record. The code breaks it: on \<open>load_base_stream\<close>, whose
  only record before the terminator is a \<^verbatim>\<open>LOAD_BASE_ADDR\<close> one at \<open>0x10008\<close>,
  \<^verbatim>\<open>read_mb2i\<close> returns 0 with \<^verbatim>\<open>rsdp\<close> set to \<open>0x10010\<close>, 8 bytes into that record.
\<close>

theorem load_base_addr_sets_rsdp:
  "read_u32 load_base_stream 0x10008 = 21 \<and> read_u32 load_base_stream 0x10018 = 0 \<and>
   (\<exists>w'. read_mb2i (counting_env 0 0x200000) (boot_world load_base_stream) 0x10000
            = Some (Inr (0, w')) \<and>
         rsdp (boot_meta (boot_world load_base_stream)) = 0 \<and>
         rsdp (boot_meta w') = 0x10010)"
  by (simp add: read_mb2i_def load_base_stream_def run_walk run_bootstrap)

end
